theory Spec2Isabelle
  imports Main "HOL-Library.Char_ord" "HOL-Library.Multiset"
begin

section \<open>Strings (Go package strings)\<close>

text \<open>
  Go strings are byte sequences; \<^typ>\<open>string\<close> (a list of 8-bit characters) models
  them byte for byte.  The helpers below are the functions of package \<^verbatim>\<open>strings\<close>
  that the crawler and \<^verbatim>\<open>net/url\<close> call.
\<close>

definition HasPrefix :: "string \<Rightarrow> string \<Rightarrow> bool" where
  "HasPrefix s p = (take (length p) s = p)"

definition HasSuffix :: "string \<Rightarrow> string \<Rightarrow> bool" where
  "HasSuffix s x = (length x \<le> length s \<and> drop (length s - length x) s = x)"

definition TrimPrefix :: "string \<Rightarrow> string \<Rightarrow> string" where
  "TrimPrefix s p = (if HasPrefix s p then drop (length p) s else s)"

definition TrimSuffix :: "string \<Rightarrow> string \<Rightarrow> string" where
  "TrimSuffix s x = (if HasSuffix s x then take (length s - length x) s else s)"

text \<open>\<^verbatim>\<open>split(s, sep, cutc)\<close> of \<^verbatim>\<open>net/url\<close>: cut at the first \<open>sep\<close>; the
  separator is dropped (\<open>cutc\<close>) or stays at the head of the second part.\<close>

definition split_at :: "string \<Rightarrow> char \<Rightarrow> bool \<Rightarrow> string \<times> string" where
  "split_at s sep cutc =
     (let a = takeWhile (\<lambda>c. c \<noteq> sep) s; b = dropWhile (\<lambda>c. c \<noteq> sep) s
      in (a, if cutc then drop 1 b else b))"

text \<open>\<^verbatim>\<open>strings.LastIndex(s, sep) \<ge> 0\<close> together with the two pieces around the
  last separator: \<open>None\<close> when the byte does not occur.\<close>

definition split_last :: "string \<Rightarrow> char \<Rightarrow> (string \<times> string) option" where
  "split_last s sep =
     (if sep \<in> set s
      then Some (rev (drop 1 (dropWhile (\<lambda>c. c \<noteq> sep) (rev s))),
                 rev (takeWhile (\<lambda>c. c \<noteq> sep) (rev s)))
      else None)"

text \<open>\<^verbatim>\<open>strings.Index(s, sub)\<close> as the split around the first occurrence.\<close>

fun split_sub :: "string \<Rightarrow> string \<Rightarrow> string \<Rightarrow> (string \<times> string) option" where
  "split_sub pre [] sub = (if sub = [] then Some (pre, []) else None)"
| "split_sub pre (c # cs) sub =
     (if HasPrefix (c # cs) sub then Some (pre, c # cs) else split_sub (pre @ [c]) cs sub)"

definition isLower :: "char \<Rightarrow> bool" where
  "isLower c = (CHR ''a'' \<le> c \<and> c \<le> CHR ''z'')"

definition isUpper :: "char \<Rightarrow> bool" where
  "isUpper c = (CHR ''A'' \<le> c \<and> c \<le> CHR ''Z'')"

definition isDigit :: "char \<Rightarrow> bool" where
  "isDigit c = (CHR ''0'' \<le> c \<and> c \<le> CHR ''9'')"

text \<open>\<^verbatim>\<open>strings.ToLower\<close>, on the ASCII letters a scheme is made of.\<close>

definition ToLower :: "string \<Rightarrow> string" where
  "ToLower s = map (\<lambda>c. if isUpper c then char_of (of_char c + (32::nat)) else c) s"

section \<open>URLs (Go package net/url)\<close>

text \<open>
  \<^verbatim>\<open>url.Parse\<close> and \<^verbatim>\<open>(*URL).String\<close> belong to Go's standard library.  They are
  modelled here after the library's algorithm: control-byte check, scheme, query,
  opaque form, authority (user information, host, port check, IPv6 literal), path
  with percent-decoding, fragment, and the printer with percent-encoding.
\<close>

record userinfo =
  username :: string
  password :: string
  passwordSet :: bool

record url =
  Scheme :: string
  Opaque :: string
  User :: "userinfo option"
  Host :: string
  Path :: string
  RawPath :: string
  ForceQuery :: bool
  RawQuery :: string
  Fragment :: string

definition empty_url :: url where
  "empty_url = \<lparr>Scheme = [], Opaque = [], User = None, Host = [], Path = [], RawPath = [],
     ForceQuery = False, RawQuery = [], Fragment = []\<rparr>"

datatype encoding = encodePath | encodeHost | encodeZone | encodeUserPassword | encodeFragment

definition ishex :: "char \<Rightarrow> bool" where
  "ishex c = (isDigit c \<or> (CHR ''a'' \<le> c \<and> c \<le> CHR ''f'') \<or> (CHR ''A'' \<le> c \<and> c \<le> CHR ''F''))"

definition unhex :: "char \<Rightarrow> nat" where
  "unhex c =
     (if isDigit c then of_char c - of_char CHR ''0''
      else if CHR ''a'' \<le> c \<and> c \<le> CHR ''f'' then of_char c - of_char CHR ''a'' + 10
      else if CHR ''A'' \<le> c \<and> c \<le> CHR ''F'' then of_char c - of_char CHR ''A'' + 10
      else 0)"

definition shouldEscape :: "char \<Rightarrow> encoding \<Rightarrow> bool" where
  "shouldEscape c mode =
     (if isLower c \<or> isUpper c \<or> isDigit c then False
      else if (mode = encodeHost \<or> mode = encodeZone) \<and> c \<in> set (''!$&()*+,;=:[]<>'' @ [CHR 0x27, CHR 0x22])
        then False
      else if c \<in> set ''-_.~'' then False
      else if c \<in> set ''$&+,/:;=?@'' \<and> mode = encodePath then c = CHR ''?''
      else if c \<in> set ''$&+,/:;=?@'' \<and> mode = encodeUserPassword then c \<in> set ''@/?:''
      else if c \<in> set ''$&+,/:;=?@'' \<and> mode = encodeFragment then False
      else if mode = encodeFragment \<and> c \<in> set ''!()*'' then False
      else True)"

fun unescape :: "string \<Rightarrow> encoding \<Rightarrow> string option" where
  "unescape [] mode = Some []"
| "unescape (c # s) mode =
     (if c = CHR ''%'' then
        (case s of
           a # b # rest \<Rightarrow>
             if \<not> ishex a \<or> \<not> ishex b then None
             else if mode = encodeHost \<and> unhex a < 8 \<and> [a, b] \<noteq> ''25'' then None
             else if mode = encodeZone \<and> [a, b] \<noteq> ''25'' \<and> unhex a * 16 + unhex b \<noteq> 32
                     \<and> shouldEscape (char_of (unhex a * 16 + unhex b)) encodeHost then None
             else map_option ((#) (char_of (unhex a * 16 + unhex b))) (unescape rest mode)
         | _ \<Rightarrow> None)
      else if (mode = encodeHost \<or> mode = encodeZone) \<and> of_char c < (128::nat)
                \<and> shouldEscape c encodeHost then None
      else map_option ((#) c) (unescape s mode))"

definition upperhex :: "nat \<Rightarrow> char" where
  "upperhex n = ''0123456789ABCDEF'' ! (n mod 16)"

definition escape :: "string \<Rightarrow> encoding \<Rightarrow> string" where
  "escape s mode =
     concat (map (\<lambda>c. if shouldEscape c mode
                       then [CHR ''%'', upperhex (of_char c div 16), upperhex (of_char c)]
                       else [c]) s)"

definition validOptionalPort :: "string \<Rightarrow> bool" where
  "validOptionalPort port =
     (case port of [] \<Rightarrow> True
      | c # ds \<Rightarrow> c = CHR '':'' \<and> list_all isDigit ds)"

definition validUserinfo :: "string \<Rightarrow> bool" where
  "validUserinfo s =
     list_all (\<lambda>r. isUpper r \<or> isLower r \<or> isDigit r
                  \<or> r \<in> set (''-._:~!$&()*+,;=%@'' @ [CHR 0x27])) s"

definition parseHost :: "string \<Rightarrow> string option" where
  "parseHost host =
     (if HasPrefix host ''['' then
        (case split_last host CHR '']'' of
           None \<Rightarrow> None
         | Some (lit, colonPort) \<Rightarrow>
             if \<not> validOptionalPort colonPort then None
             else (case split_sub [] lit ''%25'' of
                     Some (h1, z) \<Rightarrow>
                       (case (unescape h1 encodeHost, unescape z encodeZone,
                              unescape (CHR '']'' # colonPort) encodeHost) of
                          (Some host1, Some host2, Some host3) \<Rightarrow> Some (host1 @ host2 @ host3)
                        | _ \<Rightarrow> None)
                   | None \<Rightarrow> unescape host encodeHost))
      else (case split_last host CHR '':'' of
              Some (h, p) \<Rightarrow>
                if \<not> validOptionalPort (CHR '':'' # p) then None else unescape host encodeHost
            | None \<Rightarrow> unescape host encodeHost))"

definition parseAuthority :: "string \<Rightarrow> (userinfo option \<times> string) option" where
  "parseAuthority authority =
     (case split_last authority CHR ''@'' of
        None \<Rightarrow> map_option (Pair None) (parseHost authority)
      | Some (ui, h) \<Rightarrow>
          (case parseHost h of
             None \<Rightarrow> None
           | Some host \<Rightarrow>
               if \<not> validUserinfo ui then None
               else if CHR '':'' \<notin> set ui then
                 (case unescape ui encodeUserPassword of
                    None \<Rightarrow> None
                  | Some n \<Rightarrow> Some (Some \<lparr>username = n, password = [], passwordSet = False\<rparr>, host))
               else
                 (case (unescape (fst (split_at ui CHR '':'' True)) encodeUserPassword,
                        unescape (snd (split_at ui CHR '':'' True)) encodeUserPassword) of
                    (Some n, Some p) \<Rightarrow>
                      Some (Some \<lparr>username = n, password = p, passwordSet = True\<rparr>, host)
                  | _ \<Rightarrow> None)))"

definition setPath :: "url \<Rightarrow> string \<Rightarrow> url option" where
  "setPath u p =
     (case unescape p encodePath of
        None \<Rightarrow> None
      | Some path \<Rightarrow>
          Some (u\<lparr>Path := path, RawPath := (if p = escape path encodePath then [] else p)\<rparr>))"

text \<open>\<^verbatim>\<open>getScheme\<close>: the loop over the bytes of the raw URL; \<open>pre\<close> holds the bytes
  already passed, so \<open>pre = []\<close> is the source's \<open>i == 0\<close>.  \<open>None\<close> is the error
  "missing protocol scheme".\<close>

fun getScheme_loop :: "string \<Rightarrow> string \<Rightarrow> string \<Rightarrow> (string \<times> string) option" where
  "getScheme_loop rawURL pre [] = Some ([], rawURL)"
| "getScheme_loop rawURL pre (c # cs) =
     (if isLower c \<or> isUpper c then getScheme_loop rawURL (pre @ [c]) cs
      else if isDigit c \<or> c = CHR ''+'' \<or> c = CHR ''-'' \<or> c = CHR ''.'' then
        (if pre = [] then Some ([], rawURL) else getScheme_loop rawURL (pre @ [c]) cs)
      else if c = CHR '':'' then
        (if pre = [] then None else Some (pre, cs))
      else Some ([], rawURL))"

definition getScheme :: "string \<Rightarrow> (string \<times> string) option" where
  "getScheme rawURL = getScheme_loop rawURL [] rawURL"

definition stringContainsCTLByte :: "string \<Rightarrow> bool" where
  "stringContainsCTLByte s = list_ex (\<lambda>b. of_char b < (32::nat) \<or> of_char b = (127::nat)) s"

text \<open>The part of \<^verbatim>\<open>parse(rawURL, false)\<close> after the scheme has been split off.\<close>

definition parse_rest :: "string \<Rightarrow> string \<Rightarrow> url option" where
  "parse_rest scheme rest0 =
     (let u0 = empty_url\<lparr>Scheme := ToLower scheme\<rparr>;
          forceq = (HasSuffix rest0 ''?'' \<and> count_list rest0 CHR ''?'' = 1);
          rest = (if forceq then butlast rest0 else fst (split_at rest0 CHR ''?'' True));
          u1 = (if forceq then u0\<lparr>ForceQuery := True\<rparr>
                else u0\<lparr>RawQuery := snd (split_at rest0 CHR ''?'' True)\<rparr>)
      in if \<not> HasPrefix rest ''/'' \<and> Scheme u1 \<noteq> [] then Some (u1\<lparr>Opaque := rest\<rparr>)
         else if \<not> HasPrefix rest ''/'' \<and> CHR '':'' \<in> set (takeWhile (\<lambda>c. c \<noteq> CHR ''/'') rest)
           then None
         else if (Scheme u1 \<noteq> [] \<or> \<not> HasPrefix rest ''///'') \<and> HasPrefix rest ''//'' then
           (case parseAuthority (fst (split_at (drop 2 rest) CHR ''/'' False)) of
              None \<Rightarrow> None
            | Some (usr, host) \<Rightarrow>
                setPath (u1\<lparr>User := usr, Host := host\<rparr>) (snd (split_at (drop 2 rest) CHR ''/'' False)))
         else setPath u1 rest)"

definition parse :: "string \<Rightarrow> url option" where
  "parse rawURL =
     (if stringContainsCTLByte rawURL then None
      else if rawURL = ''*'' then Some (empty_url\<lparr>Path := ''*''\<rparr>)
      else (case getScheme rawURL of
              None \<Rightarrow> None
            | Some (scheme, rest) \<Rightarrow> parse_rest scheme rest))"

definition url_Parse :: "string \<Rightarrow> url option" where
  "url_Parse rawURL =
     (let (u, frag) = split_at rawURL CHR ''#'' True
      in case parse u of
           None \<Rightarrow> None
         | Some url \<Rightarrow>
             if frag = [] then Some url
             else (case unescape frag encodeFragment of
                     None \<Rightarrow> None
                   | Some f \<Rightarrow> Some (url\<lparr>Fragment := f\<rparr>)))"

definition validEncodedPath :: "string \<Rightarrow> bool" where
  "validEncodedPath s =
     list_all (\<lambda>c. c \<in> set (''!$&()*+,;=:@[]%'' @ [CHR 0x27]) \<or> \<not> shouldEscape c encodePath) s"

definition EscapedPath :: "url \<Rightarrow> string" where
  "EscapedPath u =
     (if RawPath u \<noteq> [] \<and> validEncodedPath (RawPath u)
         \<and> unescape (RawPath u) encodePath = Some (Path u) then RawPath u
      else if Path u = ''*'' then ''*''
      else escape (Path u) encodePath)"

definition userinfo_String :: "userinfo \<Rightarrow> string" where
  "userinfo_String ui =
     escape (username ui) encodeUserPassword
       @ (if passwordSet ui then '':'' @ escape (password ui) encodeUserPassword else [])"

text \<open>Everything \<^verbatim>\<open>String\<close> writes after the scheme and its colon.  The buffer is
  empty at the check for a leading path segment with a colon exactly when no scheme
  and no authority were written.\<close>

definition url_String_tail :: "url \<Rightarrow> string" where
  "url_String_tail u =
     (if Opaque u \<noteq> [] then Opaque u
      else
        (let auth =
               (if Scheme u \<noteq> [] \<or> Host u \<noteq> [] \<or> User u \<noteq> None then
                  (if Host u \<noteq> [] \<or> Path u \<noteq> [] \<or> User u \<noteq> None then ''//'' else [])
                  @ (case User u of None \<Rightarrow> [] | Some ui \<Rightarrow> userinfo_String ui @ ''@'')
                  @ (if Host u \<noteq> [] then escape (Host u) encodeHost else [])
                else []);
             path = EscapedPath u
         in auth
            @ (if path \<noteq> [] \<and> hd path \<noteq> CHR ''/'' \<and> Host u \<noteq> [] then ''/'' else [])
            @ (if Scheme u = [] \<and> auth = []
                  \<and> CHR '':'' \<in> set (takeWhile (\<lambda>c. c \<noteq> CHR ''/'') path) then ''./'' else [])
            @ path))
     @ (if ForceQuery u \<or> RawQuery u \<noteq> [] then ''?'' @ RawQuery u else [])
     @ (if Fragment u \<noteq> [] then ''#'' @ escape (Fragment u) encodeFragment else [])"

definition url_String :: "url \<Rightarrow> string" where
  "url_String u = (if Scheme u \<noteq> [] then Scheme u @ '':'' else []) @ url_String_tail u"

section \<open>The crawler's URL utilities (crawler/utils.go)\<close>

datatype error =
    ErrInvalidURL
  | ErrInvalidAbsoluteURL
  | ErrInvalidURLScheme
  | ErrInvalidNumWorkers
  | ErrInvalidHTTPClientTimeout
  | ErrCreateSiteMap string
  | ErrGetLinks string
  | ErrHTTPStatus int
  | ErrTransport string

record webSite =
  URL :: url
  Parent :: "url option"

record result =
  SourceSite :: webSite
  ChildrenSites :: "webSite list"

definition strToURL :: "string \<Rightarrow> error + url" where
  "strToURL stringUrl =
     (case url_Parse stringUrl of
        None \<Rightarrow> Inl ErrInvalidURL
      | Some u \<Rightarrow>
          if Scheme u \<noteq> [] \<and> Scheme u \<noteq> ''http'' \<and> Scheme u \<noteq> ''https''
          then Inl ErrInvalidURLScheme
          else
            (let u1 = u\<lparr>Fragment := []\<rparr>;
                 u2 = u1\<lparr>Path := TrimSuffix (Path u1) ''/''\<rparr>
             in Inr (if Path u2 = ''.'' then u2\<lparr>Path := []\<rparr> else u2)))"

definition strToAbsoluteURL :: "string \<Rightarrow> error + url" where
  "strToAbsoluteURL stringUrl =
     (case strToURL stringUrl of
        Inl err \<Rightarrow> Inl err
      | Inr u \<Rightarrow> if Scheme u = [] \<or> Host u = [] then Inl ErrInvalidAbsoluteURL else Inr u)"

definition isExternalURL :: "webSite \<Rightarrow> bool" where
  "isExternalURL s = (case Parent s of None \<Rightarrow> False | Some p \<Rightarrow> Host (URL s) \<noteq> Host p)"

definition isRelativeURL :: "url \<Rightarrow> bool" where
  "isRelativeURL u = (Scheme u = [] \<or> Host u = [])"

text \<open>The regular expression \<^verbatim>\<open>\.(jpg|jpeg|png|svg|gif|pdf|csv)$\<close> matches a path
  exactly when the path ends in a dot followed by one of the seven extensions.\<close>

definition isMediaURL :: "url \<Rightarrow> bool" where
  "isMediaURL u =
     list_ex (\<lambda>ext. HasSuffix (Path u) (''.'' @ ext))
       [''jpg'', ''jpeg'', ''png'', ''svg'', ''gif'', ''pdf'', ''csv'']"

section \<open>Link resolution (getNewSites)\<close>

text \<open>The body of the \<^verbatim>\<open>isRelativeURL\<close> branch of \<^verbatim>\<open>getNewSites\<close>: an empty scheme
  and an empty host are taken from the page.\<close>

definition resolveURL :: "webSite \<Rightarrow> url \<Rightarrow> url" where
  "resolveURL s newURL =
     (if isRelativeURL newURL then
        (let n1 = (if Scheme newURL = [] then newURL\<lparr>Scheme := Scheme (URL s)\<rparr> else newURL)
         in if Host n1 = [] then n1\<lparr>Host := Host (URL s)\<rparr> else n1)
      else newURL)"

text \<open>The loop over the extracted links.  \<open>urlSet\<close> is the Go map
  \<^verbatim>\<open>map[string]bool\<close>, whose lookup of an absent key yields \<open>false\<close>.\<close>

fun getNewSites_loop ::
  "webSite \<Rightarrow> string list \<Rightarrow> (string \<Rightarrow> bool) \<Rightarrow> webSite list \<Rightarrow> webSite list" where
  "getNewSites_loop s [] urlSet newSites = newSites"
| "getNewSites_loop s (link # links) urlSet newSites =
     (case strToURL link of
        Inl err \<Rightarrow> getNewSites_loop s links urlSet newSites
      | Inr parsed \<Rightarrow>
          (let newURL = resolveURL s parsed in
             if \<not> urlSet (url_String newURL)
             then getNewSites_loop s links (urlSet(url_String newURL := True))
                    (newSites @ [\<lparr>URL = newURL, Parent = Some (URL s)\<rparr>])
             else getNewSites_loop s links urlSet newSites))"

text \<open>\<^verbatim>\<open>getLinks\<close> is the link extractor (goquery); its outcome on the page content,
  an error message or the list of raw hrefs, is the argument.\<close>

definition getNewSites :: "webSite \<Rightarrow> string + string list \<Rightarrow> error + webSite list" where
  "getNewSites s extracted =
     (case extracted of
        Inl msg \<Rightarrow> Inl (ErrGetLinks msg)
      | Inr links \<Rightarrow> Inr (getNewSites_loop s links (\<lambda>k. False) []))"

text \<open>The specification's wording of the child list, for comparison with the loop:
  the hrefs that parse, resolved against the page, keeping the first occurrence of
  each URL string.\<close>

definition resolved_links :: "webSite \<Rightarrow> string list \<Rightarrow> url list" where
  "resolved_links s links =
     concat (map (\<lambda>link. case strToURL link of Inl err \<Rightarrow> [] | Inr u \<Rightarrow> [resolveURL s u]) links)"

fun first_occurrences :: "('a \<Rightarrow> 'k) \<Rightarrow> 'a list \<Rightarrow> 'a list" where
  "first_occurrences key [] = []"
| "first_occurrences key (x # xs) = x # first_occurrences key (filter (\<lambda>y. key y \<noteq> key x) xs)"

definition spec_children :: "webSite \<Rightarrow> string list \<Rightarrow> webSite list" where
  "spec_children s links =
     map (\<lambda>u. \<lparr>URL = u, Parent = Some (URL s)\<rparr>) (first_occurrences url_String (resolved_links s links))"

section \<open>The crawler (Run, validate and the pipeline stages)\<close>

text \<open>The HTTP transport: what \<^verbatim>\<open>client.Do\<close> returns for a request URL, either a
  transport failure or a status code with the link extractor's outcome on the body.\<close>

datatype response = Failed string | Response int "string + string list"

datatype writer = FileWriter string | GivenWriter

record crawler =
  SeedURL :: string
  NumWorkers :: int
  HTTPClientTimeoutSec :: int
  SiteMapOutputFile :: string
  SiteMapWriter :: "writer option"

text \<open>\<^verbatim>\<open>os.Create\<close> is the file system: \<open>create name\<close> is \<open>Some msg\<close> when the file
  cannot be created.\<close>

definition validate :: "(string \<Rightarrow> string option) \<Rightarrow> crawler \<Rightarrow> error + crawler" where
  "validate create c =
     (case strToAbsoluteURL (SeedURL c) of
        Inl err \<Rightarrow> Inl err
      | Inr u \<Rightarrow>
          if NumWorkers c \<le> 0 then Inl ErrInvalidNumWorkers
          else if HTTPClientTimeoutSec c < 0 then Inl ErrInvalidHTTPClientTimeout
          else
            (let c1 = (if SiteMapOutputFile c = [] then c\<lparr>SiteMapOutputFile := ''/dev/stdout''\<rparr> else c)
             in case SiteMapWriter c1 of
                  Some w \<Rightarrow> Inr c1
                | None \<Rightarrow>
                    (case create (SiteMapOutputFile c1) of
                       Some msg \<Rightarrow> Inl (ErrCreateSiteMap msg)
                     | None \<Rightarrow> Inr (c1\<lparr>SiteMapWriter := Some (FileWriter (SiteMapOutputFile c1))\<rparr>))))"

text \<open>\<^verbatim>\<open>scrape\<close> up to the credit it sends: the fetch, the status check and the child
  list.  The send of \<^verbatim>\<open>len(sites)\<close> on the delta channel is a step of the worker
  below.\<close>

definition scrape :: "(string \<Rightarrow> response) \<Rightarrow> webSite \<Rightarrow> error + webSite list" where
  "scrape web s =
     (case web (url_String (URL s)) of
        Failed msg \<Rightarrow> Inl (ErrTransport msg)
      | Response status extracted \<Rightarrow>
          if status \<ge> 400 then Inl (ErrHTTPStatus status) else getNewSites s extracted)"

text \<open>The key of the visited set, computed in \<^verbatim>\<open>workQueueAppender\<close>.\<close>

definition canonicalKey :: "url \<Rightarrow> string" where
  "canonicalKey u = TrimPrefix (url_String u) (Scheme u)"

text \<open>One iteration of \<^verbatim>\<open>workQueueAppender\<close> on a received site: the updated visited
  set and what the stage sends next, a delta of \<open>-1\<close> or the site on the work queue.\<close>

datatype appender_send = SendDelta int | SendWork webSite

definition appender_body :: "(string \<Rightarrow> bool) \<Rightarrow> webSite \<Rightarrow> (string \<Rightarrow> bool) \<times> appender_send" where
  "appender_body visitedSites newSite =
     (if isExternalURL newSite \<or> isMediaURL (URL newSite) then (visitedSites, SendDelta (- 1))
      else
        (let siteURL = canonicalKey (URL newSite) in
           if \<not> visitedSites siteURL then (visitedSites(siteURL := True), SendWork newSite)
           else (visitedSites, SendDelta (- 1))))"

definition sitemap_line :: "result \<Rightarrow> webSite \<Rightarrow> string" where
  "sitemap_line r s = url_String (URL (SourceSite r)) @ '' -> '' @ url_String (URL s) @ [CHR 0x0A]"

subsection \<open>Goroutines and channels\<close>

text \<open>
  Each goroutine is a program counter; a buffered channel is a list with a capacity
  and a closed flag; the unbuffered delta channel and \<^verbatim>\<open>siteMapDone\<close> are
  rendezvous: a send is one step taken together with the receiver, which must be
  waiting.  A step names the goroutine that moves, so a run is a schedule, a list of
  goroutine names, and every interleaving Go allows is some schedule.  A step that
  is blocked returns \<open>None\<close>.  A Go panic (send on a closed channel, close of a
  closed channel) stops the program: it sets \<open>panicked\<close> and no step follows.
\<close>

datatype seeder_pc = SeedSubmit | SeedCredit | SeedDone
datatype checker_pc = CheckRecv | CheckClose
datatype appender_pc = AppRecv | AppRetire | AppForward webSite | AppExit
datatype worker_pc =
    WRecv | WScrape webSite | WCredit webSite "webSite list" | WResult webSite "webSite list"
  | WRetire | WExit
datatype builder_pc = BuildRecv | BuildSignal | BuildExit
datatype main_pc = MainWait | MainCloseFilter | MainCloseResult | MainRecvDone | MainReturned

datatype goroutine = Seeder | Checker | Appender | Worker nat | Sender nat | Builder | MainRun

record pipeline =
  seedURL :: string
  workQueueCapacity :: nat
  siteFilterQueue :: "webSite list"
  siteFilterClosed :: bool
  workQueue :: "webSite list"
  workQueueClosed :: bool
  resultQueue :: "result list"
  resultClosed :: bool
  visitedSites :: "string \<Rightarrow> bool"
  workQueueSize :: int
  seeder :: seeder_pc
  checker :: checker_pc
  appender :: appender_pc
  workers :: "worker_pc list"
  senders :: "webSite list list"
  builder :: builder_pc
  mainRun :: main_pc
  sitemap :: "string list"
  fetched :: "webSite list"
  panicked :: bool

text \<open>\<^verbatim>\<open>init\<close> and the goroutines \<^verbatim>\<open>Run\<close> starts.  \<open>sitemap\<close> is what has been written
  to the writer, line by line; \<open>fetched\<close> records the sites the workers have called
  \<^verbatim>\<open>scrape\<close> on (it is not a variable of the program).\<close>

definition init :: "crawler \<Rightarrow> pipeline" where
  "init c =
     \<lparr>seedURL = SeedURL c, workQueueCapacity = nat (NumWorkers c * 2),
      siteFilterQueue = [], siteFilterClosed = False,
      workQueue = [], workQueueClosed = False,
      resultQueue = [], resultClosed = False,
      visitedSites = (\<lambda>k. False), workQueueSize = 0,
      seeder = SeedSubmit, checker = CheckRecv, appender = AppRecv,
      workers = replicate (nat (NumWorkers c)) WRecv, senders = [],
      builder = BuildRecv, mainRun = MainWait,
      sitemap = [], fetched = [], panicked = False\<rparr>"

text \<open>A send on the delta channel, received by \<^verbatim>\<open>workQueueDoneChecker\<close>: the checker
  adds the delta and, when the sum is zero, goes on to close the work queue.\<close>

definition send_delta :: "int \<Rightarrow> pipeline \<Rightarrow> pipeline option" where
  "send_delta delta s =
     (if checker s = CheckRecv
      then Some (s\<lparr>workQueueSize := workQueueSize s + delta,
                   checker := (if workQueueSize s + delta = 0 then CheckClose else CheckRecv)\<rparr>)
      else None)"

definition send_filter :: "webSite \<Rightarrow> pipeline \<Rightarrow> pipeline option" where
  "send_filter site s =
     (if siteFilterClosed s then Some (s\<lparr>panicked := True\<rparr>)
      else if length (siteFilterQueue s) < workQueueCapacity s
        then Some (s\<lparr>siteFilterQueue := siteFilterQueue s @ [site]\<rparr>)
      else None)"

definition seeder_step :: "pipeline \<Rightarrow> pipeline option" where
  "seeder_step s =
     (case seeder s of
        SeedSubmit \<Rightarrow>
          (case strToAbsoluteURL (seedURL s) of
             Inl err \<Rightarrow> Some (s\<lparr>panicked := True\<rparr>)
           | Inr u \<Rightarrow> map_option (\<lambda>t. t\<lparr>seeder := SeedCredit\<rparr>)
                        (send_filter \<lparr>URL = u, Parent = None\<rparr> s))
      | SeedCredit \<Rightarrow> map_option (\<lambda>t. t\<lparr>seeder := SeedDone\<rparr>) (send_delta 1 s)
      | SeedDone \<Rightarrow> None)"

definition checker_step :: "pipeline \<Rightarrow> pipeline option" where
  "checker_step s =
     (case checker s of
        CheckRecv \<Rightarrow> None
      | CheckClose \<Rightarrow>
          if workQueueClosed s then Some (s\<lparr>panicked := True\<rparr>)
          else Some (s\<lparr>workQueueClosed := True, checker := CheckRecv\<rparr>))"

definition appender_step :: "pipeline \<Rightarrow> pipeline option" where
  "appender_step s =
     (case appender s of
        AppRecv \<Rightarrow>
          (case siteFilterQueue s of
             [] \<Rightarrow> if siteFilterClosed s then Some (s\<lparr>appender := AppExit\<rparr>) else None
           | newSite # q \<Rightarrow>
               (case appender_body (visitedSites s) newSite of
                  (v, SendDelta d) \<Rightarrow>
                    Some (s\<lparr>siteFilterQueue := q, visitedSites := v, appender := AppRetire\<rparr>)
                | (v, SendWork site) \<Rightarrow>
                    Some (s\<lparr>siteFilterQueue := q, visitedSites := v, appender := AppForward site\<rparr>)))
      | AppRetire \<Rightarrow> map_option (\<lambda>t. t\<lparr>appender := AppRecv\<rparr>) (send_delta (- 1) s)
      | AppForward site \<Rightarrow>
          if workQueueClosed s then Some (s\<lparr>panicked := True\<rparr>)
          else if length (workQueue s) < workQueueCapacity s
            then Some (s\<lparr>workQueue := workQueue s @ [site], appender := AppRecv\<rparr>)
          else None
      | AppExit \<Rightarrow> None)"

definition worker_step :: "(string \<Rightarrow> response) \<Rightarrow> nat \<Rightarrow> pipeline \<Rightarrow> pipeline option" where
  "worker_step web i s =
     (if length (workers s) \<le> i then None
      else case workers s ! i of
        WRecv \<Rightarrow>
          (case workQueue s of
             [] \<Rightarrow> if workQueueClosed s then Some (s\<lparr>workers := (workers s)[i := WExit]\<rparr>) else None
           | site # q \<Rightarrow> Some (s\<lparr>workQueue := q, workers := (workers s)[i := WScrape site]\<rparr>))
      | WScrape site \<Rightarrow>
          (case scrape web site of
             Inl err \<Rightarrow> Some (s\<lparr>fetched := fetched s @ [site], workers := (workers s)[i := WRetire]\<rparr>)
           | Inr sites \<Rightarrow>
               Some (s\<lparr>fetched := fetched s @ [site],
                       workers := (workers s)[i := (if length sites \<noteq> 0 then WCredit site sites
                                                    else WResult site sites)]\<rparr>))
      | WCredit site sites \<Rightarrow>
          map_option (\<lambda>t. t\<lparr>workers := (workers t)[i := WResult site sites]\<rparr>)
            (send_delta (int (length sites)) s)
      | WResult site sites \<Rightarrow>
          if resultClosed s then Some (s\<lparr>panicked := True\<rparr>)
          else if length (resultQueue s) < workQueueCapacity s
            then Some (s\<lparr>resultQueue := resultQueue s @ [\<lparr>SourceSite = site, ChildrenSites = sites\<rparr>],
                         senders := senders s @ [sites],
                         workers := (workers s)[i := WRetire]\<rparr>)
          else None
      | WRetire \<Rightarrow> map_option (\<lambda>t. t\<lparr>workers := (workers t)[i := WRecv]\<rparr>) (send_delta (- 1) s)
      | WExit \<Rightarrow> None)"

text \<open>The goroutine a worker starts after emitting its result: it sends the children
  to the filter queue one by one.\<close>

definition sender_step :: "nat \<Rightarrow> pipeline \<Rightarrow> pipeline option" where
  "sender_step j s =
     (if length (senders s) \<le> j then None
      else case senders s ! j of
        [] \<Rightarrow> None
      | site # rest \<Rightarrow>
          map_option (\<lambda>t. t\<lparr>senders := (senders t)[j := rest]\<rparr>) (send_filter site s))"

definition builder_step :: "pipeline \<Rightarrow> pipeline option" where
  "builder_step s =
     (case builder s of
        BuildRecv \<Rightarrow>
          (case resultQueue s of
             [] \<Rightarrow> if resultClosed s then Some (s\<lparr>builder := BuildSignal\<rparr>) else None
           | r # q \<Rightarrow>
               Some (s\<lparr>resultQueue := q,
                       sitemap := sitemap s @ map (sitemap_line r) (ChildrenSites r)\<rparr>))
      | BuildSignal \<Rightarrow>
          if mainRun s = MainRecvDone then Some (s\<lparr>builder := BuildExit, mainRun := MainReturned\<rparr>)
          else None
      | BuildExit \<Rightarrow> None)"

definition main_step :: "pipeline \<Rightarrow> pipeline option" where
  "main_step s =
     (case mainRun s of
        MainWait \<Rightarrow>
          if list_all (\<lambda>w. w = WExit) (workers s) then Some (s\<lparr>mainRun := MainCloseFilter\<rparr>) else None
      | MainCloseFilter \<Rightarrow>
          if siteFilterClosed s then Some (s\<lparr>panicked := True\<rparr>)
          else Some (s\<lparr>siteFilterClosed := True, mainRun := MainCloseResult\<rparr>)
      | MainCloseResult \<Rightarrow>
          if resultClosed s then Some (s\<lparr>panicked := True\<rparr>)
          else Some (s\<lparr>resultClosed := True, mainRun := MainRecvDone\<rparr>)
      | MainRecvDone \<Rightarrow> None
      | MainReturned \<Rightarrow> None)"

definition step :: "(string \<Rightarrow> response) \<Rightarrow> goroutine \<Rightarrow> pipeline \<Rightarrow> pipeline option" where
  "step web g s =
     (if panicked s then None
      else case g of
        Seeder \<Rightarrow> seeder_step s
      | Checker \<Rightarrow> checker_step s
      | Appender \<Rightarrow> appender_step s
      | Worker i \<Rightarrow> worker_step web i s
      | Sender j \<Rightarrow> sender_step j s
      | Builder \<Rightarrow> builder_step s
      | MainRun \<Rightarrow> main_step s)"

fun exec :: "(string \<Rightarrow> response) \<Rightarrow> goroutine list \<Rightarrow> pipeline \<Rightarrow> pipeline option" where
  "exec web [] s = Some s"
| "exec web (g # gs) s = (case step web g s of None \<Rightarrow> None | Some t \<Rightarrow> exec web gs t)"

text \<open>\<^verbatim>\<open>Run\<close> under a schedule: the validation error, returned before \<^verbatim>\<open>init\<close> and before
  any goroutine exists, or the state the schedule leads to (\<open>None\<close> when the
  schedule asks a blocked goroutine to move).  \<^verbatim>\<open>Run\<close> has returned \<open>nil\<close> in a state
  whose \<open>mainRun\<close> is \<open>MainReturned\<close>.\<close>

definition Run ::
  "(string \<Rightarrow> string option) \<Rightarrow> (string \<Rightarrow> response) \<Rightarrow> goroutine list \<Rightarrow> crawler
     \<Rightarrow> error + pipeline option" where
  "Run create web schedule c =
     (case validate create c of
        Inl err \<Rightarrow> Inl err
      | Inr c1 \<Rightarrow> Inr (exec web schedule (init c1)))"

section \<open>Invariants of the pipeline\<close>

text \<open>The sites admitted by the appender and not yet dropped: the one it is about to
  forward, those on the work queue, those a worker is about to scrape, and those
  already scraped.  The invariant: their keys are pairwise different and all in the
  visited set.\<close>

definition key_of :: "webSite \<Rightarrow> string" where
  "key_of x = canonicalKey (URL x)"

fun forwarding :: "appender_pc \<Rightarrow> webSite list" where
  "forwarding (AppForward x) = [x]"
| "forwarding pc = []"

fun scraping :: "worker_pc \<Rightarrow> webSite list" where
  "scraping (WScrape x) = [x]"
| "scraping pc = []"

definition admitted :: "pipeline \<Rightarrow> webSite list" where
  "admitted s = forwarding (appender s) @ workQueue s @ concat (map scraping (workers s)) @ fetched s"

definition dedup_inv :: "pipeline \<Rightarrow> bool" where
  "dedup_inv s = (distinct (map key_of (admitted s)) \<and> list_all (\<lambda>x. visitedSites s (key_of x)) (admitted s))"

definition admits :: "pipeline \<Rightarrow> pipeline \<Rightarrow> bool" where
  "admits s t =
     ((mset (admitted t) = mset (admitted s) \<and> visitedSites t = visitedSites s)
      \<or> (\<exists>x. \<not> visitedSites s (key_of x) \<and> mset (admitted t) = add_mset x (mset (admitted s))
              \<and> visitedSites t = (visitedSites s)(key_of x := True)))"

text \<open>The sitemap lines of a result, the lines a fetched site contributes (none when
  \<^verbatim>\<open>scrape\<close> fails), and the lines accounted for in a state: written, queued for the
  builder, or held by a worker that has not yet emitted its result.\<close>

definition result_lines :: "result \<Rightarrow> string list" where
  "result_lines r = map (sitemap_line r) (ChildrenSites r)"

definition edges :: "(string \<Rightarrow> response) \<Rightarrow> webSite \<Rightarrow> string list" where
  "edges web x =
     (case scrape web x of
        Inl err \<Rightarrow> []
      | Inr sites \<Rightarrow> result_lines \<lparr>SourceSite = x, ChildrenSites = sites\<rparr>)"

fun holding :: "worker_pc \<Rightarrow> string list" where
  "holding (WCredit x sites) = result_lines \<lparr>SourceSite = x, ChildrenSites = sites\<rparr>"
| "holding (WResult x sites) = result_lines \<lparr>SourceSite = x, ChildrenSites = sites\<rparr>"
| "holding pc = []"

definition accounted :: "pipeline \<Rightarrow> string list" where
  "accounted s = sitemap s @ concat (map result_lines (resultQueue s)) @ concat (map holding (workers s))"

definition edges_inv :: "(string \<Rightarrow> response) \<Rightarrow> pipeline \<Rightarrow> bool" where
  "edges_inv web s = (mset (accounted s) = mset (concat (map (edges web) (fetched s))))"

definition shutdown_inv :: "pipeline \<Rightarrow> bool" where
  "shutdown_inv s =
     ((mainRun s = MainWait \<or> list_all (\<lambda>w. w = WExit) (workers s))
      \<and> (builder s = BuildRecv \<or> (resultQueue s = [] \<and> resultClosed s))
      \<and> (mainRun s \<noteq> MainReturned \<or> builder s = BuildExit))"

definition accounts :: "(string \<Rightarrow> response) \<Rightarrow> pipeline \<Rightarrow> pipeline \<Rightarrow> bool" where
  "accounts web s t =
     ((mset (accounted t) = mset (accounted s) \<and> fetched t = fetched s)
      \<or> (\<exists>x. fetched t = fetched s @ [x] \<and> mset (accounted t) = mset (accounted s) + mset (edges web x)))"

text \<open>The sites in flight: submitted and not yet retired.  A worker that has sent
  its credit holds its own site and the children it is about to hand over.  The
  counter invariant: the checker's sum is the number of sites in flight, less one
  while the seed has been submitted and its credit not yet sent.\<close>

fun appender_holds :: "appender_pc \<Rightarrow> nat" where
  "appender_holds AppRetire = 1"
| "appender_holds (AppForward x) = 1"
| "appender_holds pc = 0"

fun worker_holds :: "worker_pc \<Rightarrow> nat" where
  "worker_holds (WScrape x) = 1"
| "worker_holds (WCredit x sites) = 1"
| "worker_holds (WResult x sites) = 1 + length sites"
| "worker_holds WRetire = 1"
| "worker_holds pc = 0"

definition in_flight :: "pipeline \<Rightarrow> nat" where
  "in_flight s =
     length (siteFilterQueue s) + appender_holds (appender s) + length (workQueue s)
     + sum_list (map worker_holds (workers s)) + sum_list (map length (senders s))"

definition counter_inv :: "pipeline \<Rightarrow> bool" where
  "counter_inv s =
     (panicked s \<or> workQueueSize s = int (in_flight s) - (if seeder s = SeedCredit then 1 else 0))"

text \<open>What holds along a run once the seed's credit has been received: no panic, the
  counter is the number of sites in flight, the work queue is closed only at zero,
  and the shutdown sequence follows the workers' exit.\<close>

definition seeded :: "pipeline \<Rightarrow> bool" where
  "seeded s =
     (\<not> panicked s \<and> seeder s = SeedDone \<and> workers s \<noteq> []
      \<and> workQueueSize s = int (in_flight s)
      \<and> (checker s = CheckClose \<longrightarrow> in_flight s = 0 \<and> \<not> workQueueClosed s)
      \<and> (workQueueClosed s \<longrightarrow> in_flight s = 0)
      \<and> (WExit \<in> set (workers s) \<longrightarrow> workQueueClosed s)
      \<and> (mainRun s \<noteq> MainWait \<longrightarrow> list_all (\<lambda>w. w = WExit) (workers s))
      \<and> (siteFilterClosed s \<longrightarrow> mainRun s \<noteq> MainWait \<and> mainRun s \<noteq> MainCloseFilter)
      \<and> (resultClosed s \<longrightarrow> mainRun s = MainRecvDone \<or> mainRun s = MainReturned))"

text \<open>Further invariants of runs that seed first, used to show that such runs go on
  until \<^verbatim>\<open>Run\<close> returns: the shutdown sequence, and a work queue that is closed once
  the counter is back at zero.\<close>

definition live :: "pipeline \<Rightarrow> bool" where
  "live s =
     (0 < workQueueCapacity s
      \<and> (appender s = AppExit \<longrightarrow> siteFilterClosed s)
      \<and> (builder s \<noteq> BuildRecv \<longrightarrow> resultQueue s = [] \<and> resultClosed s)
      \<and> (builder s = BuildExit \<longrightarrow> mainRun s = MainReturned)
      \<and> (mainRun s = MainRecvDone \<longrightarrow> resultClosed s))"

definition zero_closed :: "pipeline \<Rightarrow> bool" where
  "zero_closed s = (checker s = CheckRecv \<and> in_flight s = 0 \<longrightarrow> workQueueClosed s)"

text \<open>A finite site: a finite set of sites that holds every child of its successfully
  scraped members, apart from the external and media ones, which the appender
  retires.  \<open>known\<close> says that every site in the pipeline is of this kind.\<close>

definition candidate_ok :: "webSite set \<Rightarrow> webSite \<Rightarrow> bool" where
  "candidate_ok S c = (c \<in> S \<or> isExternalURL c \<or> isMediaURL (URL c))"

definition finite_site :: "(string \<Rightarrow> response) \<Rightarrow> webSite set \<Rightarrow> nat \<Rightarrow> bool" where
  "finite_site web S B =
     (finite S \<and> (\<forall>x \<in> S. \<forall>sites. scrape web x = Inr sites \<longrightarrow>
        length sites \<le> B \<and> list_all (candidate_ok S) sites))"

fun appender_known :: "webSite set \<Rightarrow> appender_pc \<Rightarrow> bool" where
  "appender_known S (AppForward x) = (x \<in> S)"
| "appender_known S pc = True"

fun worker_known :: "webSite set \<Rightarrow> nat \<Rightarrow> worker_pc \<Rightarrow> bool" where
  "worker_known S B (WScrape x) = (x \<in> S)"
| "worker_known S B (WCredit x sites) = (length sites \<le> B \<and> list_all (candidate_ok S) sites)"
| "worker_known S B (WResult x sites) = (length sites \<le> B \<and> list_all (candidate_ok S) sites)"
| "worker_known S B pc = True"

definition known :: "webSite set \<Rightarrow> nat \<Rightarrow> pipeline \<Rightarrow> bool" where
  "known S B s =
     (list_all (candidate_ok S) (siteFilterQueue s)
      \<and> list_all (list_all (candidate_ok S)) (senders s)
      \<and> appender_known S (appender s)
      \<and> list_all (\<lambda>x. x \<in> S) (workQueue s)
      \<and> list_all (worker_known S B) (workers s))"

definition closed_site :: "(string \<Rightarrow> response) \<Rightarrow> webSite set \<Rightarrow> bool" where
  "closed_site web S =
     (finite S \<and> (\<forall>x \<in> S. \<forall>sites. scrape web x = Inr sites \<longrightarrow> list_all (candidate_ok S) sites))"

text \<open>A bound on the steps a run has left: the cost of every site not yet visited,
  plus the steps left for what is in the queues and in the goroutines' hands.\<close>

definition admit_cost :: "nat \<Rightarrow> nat" where
  "admit_cost B = 8 + 4 * B"

fun appender_weight :: "nat \<Rightarrow> appender_pc \<Rightarrow> nat" where
  "appender_weight B AppRecv = 1"
| "appender_weight B AppRetire = 3"
| "appender_weight B (AppForward x) = admit_cost B + 2"
| "appender_weight B AppExit = 0"

fun worker_weight :: "nat \<Rightarrow> worker_pc \<Rightarrow> nat" where
  "worker_weight B WRecv = 1"
| "worker_weight B (WScrape x) = admit_cost B"
| "worker_weight B (WCredit x sites) = 7 + 4 * length sites"
| "worker_weight B (WResult x sites) = 5 + 4 * length sites"
| "worker_weight B WRetire = 3"
| "worker_weight B WExit = 0"

fun builder_weight :: "builder_pc \<Rightarrow> nat" where
  "builder_weight BuildRecv = 2"
| "builder_weight BuildSignal = 1"
| "builder_weight BuildExit = 0"

fun main_weight :: "main_pc \<Rightarrow> nat" where
  "main_weight MainWait = 3"
| "main_weight MainCloseFilter = 2"
| "main_weight MainCloseResult = 1"
| "main_weight pc = 0"

fun checker_weight :: "checker_pc \<Rightarrow> nat" where
  "checker_weight CheckClose = 1"
| "checker_weight CheckRecv = 0"

definition unvisited :: "webSite set \<Rightarrow> pipeline \<Rightarrow> nat" where
  "unvisited S s = card {k \<in> key_of ` S. \<not> visitedSites s k}"

definition work_left :: "nat \<Rightarrow> pipeline \<Rightarrow> nat" where
  "work_left B s =
     3 * length (siteFilterQueue s) + appender_weight B (appender s)
     + admit_cost B * length (workQueue s) + sum_list (map (worker_weight B) (workers s))
     + 4 * sum_list (map length (senders s)) + length (resultQueue s)
     + builder_weight (builder s) + main_weight (mainRun s) + checker_weight (checker s)"

definition potential :: "webSite set \<Rightarrow> nat \<Rightarrow> pipeline \<Rightarrow> nat" where
  "potential S B s = (admit_cost B + 2) * unvisited S s + work_left B s"

definition ready :: "(string \<Rightarrow> response) \<Rightarrow> webSite set \<Rightarrow> nat \<Rightarrow> pipeline \<Rightarrow> bool" where
  "ready web S B s = (seeded s \<and> live s \<and> zero_closed s \<and> known S B s \<and> finite_site web S B)"

section \<open>Concrete inputs\<close>

text \<open>A page, configurations, a file system that creates every file and a web that
  refuses every request, used to evaluate the definitions above.\<close>

definition example_page :: webSite where
  "example_page = \<lparr>URL = empty_url\<lparr>Scheme := ''http'', Host := ''h''\<rparr>, Parent = None\<rparr>"

definition example_crawler :: crawler where
  "example_crawler = \<lparr>SeedURL = ''http://h'', NumWorkers = 1, HTTPClientTimeoutSec = 2,
     SiteMapOutputFile = [], SiteMapWriter = Some GivenWriter\<rparr>"

definition colon_seed_crawler :: crawler where
  "colon_seed_crawler = \<lparr>SeedURL = '':'', NumWorkers = 5, HTTPClientTimeoutSec = 2,
     SiteMapOutputFile = [], SiteMapWriter = Some GivenWriter\<rparr>"

definition create_ok :: "string \<Rightarrow> string option" where
  "create_ok name = None"

definition web_down :: "string \<Rightarrow> response" where
  "web_down request = Failed ''connection refused''"

definition example_filtering :: pipeline where
  "example_filtering = (init example_crawler)\<lparr>seeder := SeedCredit, siteFilterQueue := [example_page]\<rparr>"

definition example_retiring :: pipeline where
  "example_retiring = (init example_crawler)\<lparr>seeder := SeedDone, appender := AppRetire, workQueueSize := 1\<rparr>"

definition example_forwarding :: pipeline where
  "example_forwarding = (init example_crawler)\<lparr>seeder := SeedCredit, appender := AppForward example_page\<rparr>"

text \<open>The name of the file \<^verbatim>\<open>validate\<close> creates: \<^verbatim>\<open>os.Stdout.Name()\<close> when none is
  configured.\<close>

definition output_file :: "crawler \<Rightarrow> string" where
  "output_file c = (if SiteMapOutputFile c = [] then ''/dev/stdout'' else SiteMapOutputFile c)"

definition example_web :: "string \<Rightarrow> response" where
  "example_web request =
     (if request = ''http://h'' then Response 200 (Inr [''/a.pdf'', ''https://x.org/'', ''/b'', ''mailto:x@y''])
      else if request = ''http://h/b'' then Response 200 (Inr [''/'', ''/c'', ''/c/''])
      else if request = ''http://h/c'' then Response 404 (Inr [])
      else Failed ''connection refused'')"

definition example_schedule :: "goroutine list" where
  "example_schedule =
     [Seeder, Seeder, Appender, Appender, Worker 0, Worker 0, Worker 0,
      Worker 0, Worker 0, Sender 0, Appender, Appender, Sender 0, Appender,
      Appender, Sender 0, Appender, Appender, Worker 0, Worker 0, Worker 0,
      Worker 0, Worker 0, Sender 1, Appender, Appender, Sender 1, Appender,
      Appender, Worker 0, Worker 0, Worker 0, Checker, Worker 0, Builder,
      Builder, MainRun, MainRun, Appender, MainRun, Builder, Builder]"

definition media_seed_crawler :: crawler where
  "media_seed_crawler = \<lparr>SeedURL = ''http://h/a.pdf'', NumWorkers = 1, HTTPClientTimeoutSec = 2,
     SiteMapOutputFile = [], SiteMapWriter = Some GivenWriter\<rparr>"

definition one_link_web :: "string \<Rightarrow> response" where
  "one_link_web request =
     (if request = ''http://h'' then Response 200 (Inr [''/b''])
      else if request = ''http://h/b'' then Response 200 (Inr [])
      else Failed ''connection refused'')"

text \<open>The child of the seed page of \<open>one_link_web\<close>: the link \<^verbatim>\<open>/b\<close> resolved against
  \<^verbatim>\<open>http://h\<close>.\<close>

definition child_b :: webSite where
  "child_b = \<lparr>URL = empty_url\<lparr>Scheme := ''http'', Host := ''h'', Path := ''/b''\<rparr>,
     Parent = Some (empty_url\<lparr>Scheme := ''http'', Host := ''h''\<rparr>)\<rparr>"

definition late_credit_schedule :: "goroutine list" where
  "late_credit_schedule =
     [Seeder, Appender, Appender, Worker 0, Worker 0, Worker 0, Worker 0, Worker 0, Checker]"

section \<open>Properties of the URL utilities\<close>

lemma TrimPrefix_append: "TrimPrefix (p @ s) p = s"
  by (simp add: TrimPrefix_def HasPrefix_def)

lemma ToLower_http: "ToLower ''http'' = ''http''" "ToLower ''https'' = ''https''"
  by (simp_all add: ToLower_def isUpper_def)

lemma setPath_Scheme:
  "setPath (u\<lparr>Scheme := sch\<rparr>) p = map_option (\<lambda>v. v\<lparr>Scheme := sch\<rparr>) (setPath u p)"
  by (simp add: setPath_def split: option.splits)

lemma parse_rest_scheme:
  assumes "a \<noteq> []" "b \<noteq> []"
  shows "parse_rest b rest = map_option (\<lambda>v. v\<lparr>Scheme := ToLower b\<rparr>) (parse_rest a rest)"
  using assms
  by (auto simp: parse_rest_def Let_def ToLower_def setPath_def empty_url_def split: option.splits)

lemma split_at_http:
  "split_at (''http://'' @ r) CHR ''#'' True = (''http://'' @ fst (split_at r CHR ''#'' True), snd (split_at r CHR ''#'' True))"
  "split_at (''https://'' @ r) CHR ''#'' True = (''https://'' @ fst (split_at r CHR ''#'' True), snd (split_at r CHR ''#'' True))"
  by (simp_all add: split_at_def Let_def)

lemma parse_http:
  "parse (''http://'' @ r) = (if stringContainsCTLByte r then None else parse_rest ''http'' (''//'' @ r))"
  "parse (''https://'' @ r) = (if stringContainsCTLByte r then None else parse_rest ''https'' (''//'' @ r))"
  by (simp_all add: parse_def stringContainsCTLByte_def getScheme_def isLower_def isUpper_def isDigit_def)

lemma url_Parse_alt:
  "url_Parse raw =
     (case parse (fst (split_at raw CHR ''#'' True)) of
        None \<Rightarrow> None
      | Some url \<Rightarrow>
          if snd (split_at raw CHR ''#'' True) = [] then Some url
          else (case unescape (snd (split_at raw CHR ''#'' True)) encodeFragment of
                  None \<Rightarrow> None
                | Some f \<Rightarrow> Some (url\<lparr>Fragment := f\<rparr>)))"
  by (cases "split_at raw CHR ''#'' True") (simp add: url_Parse_def split: option.splits)

lemma url_Parse_https:
  "url_Parse (''https://'' @ r) = map_option (\<lambda>v. v\<lparr>Scheme := ''https''\<rparr>) (url_Parse (''http://'' @ r))"
  unfolding url_Parse_alt split_at_http fst_conv snd_conv parse_http
  by (simp add: parse_rest_scheme[of "''http''" "''https''"] ToLower_http split: option.splits)

lemma setPath_Scheme_eq: "setPath u p = Some v \<Longrightarrow> Scheme v = Scheme u"
  by (auto simp: setPath_def split: option.splits)

lemma parse_rest_Scheme: "parse_rest sch rest = Some v \<Longrightarrow> Scheme v = ToLower sch"
  by (auto simp: parse_rest_def Let_def empty_url_def split: option.splits if_splits
      dest!: setPath_Scheme_eq)

lemma url_Parse_http_Scheme: "url_Parse (''http://'' @ r) = Some v \<Longrightarrow> Scheme v = ''http''"
  unfolding url_Parse_alt split_at_http fst_conv snd_conv parse_http
  by (auto split: option.splits if_splits dest!: parse_rest_Scheme simp: ToLower_http)

lemma EscapedPath_Scheme: "EscapedPath (u\<lparr>Scheme := sch\<rparr>) = EscapedPath u"
  by (simp add: EscapedPath_def)

lemma url_String_tail_Scheme:
  "Scheme u \<noteq> [] \<Longrightarrow> sch \<noteq> [] \<Longrightarrow> url_String_tail (u\<lparr>Scheme := sch\<rparr>) = url_String_tail u"
  by (simp add: url_String_tail_def EscapedPath_Scheme Let_def)

lemma url_String_Scheme:
  "Scheme u \<noteq> [] \<Longrightarrow> url_String u = Scheme u @ '':'' @ url_String_tail u"
  by (simp add: url_String_def)

lemma canonicalKey_Scheme:
  "Scheme u \<noteq> [] \<Longrightarrow> canonicalKey u = '':'' @ url_String_tail u"
  by (simp add: canonicalKey_def url_String_def TrimPrefix_def HasPrefix_def)

lemma strToURL_Inr:
  "strToURL raw = Inr u \<Longrightarrow>
     \<exists>v. url_Parse raw = Some v \<and> (Scheme v = [] \<or> Scheme v = ''http'' \<or> Scheme v = ''https'')
        \<and> u = v\<lparr>Fragment := [],
                 Path := (if TrimSuffix (Path v) ''/'' = ''.'' then [] else TrimSuffix (Path v) ''/'')\<rparr>"
  unfolding strToURL_def by (auto split: option.splits if_splits simp: Let_def)

lemma strToURL_rescheme:
  assumes "url_Parse b = map_option (\<lambda>v. v\<lparr>Scheme := ''https''\<rparr>) (url_Parse a)"
    and "\<And>v. url_Parse a = Some v \<Longrightarrow> Scheme v = ''http''"
  shows "strToURL b = (case strToURL a of Inl e \<Rightarrow> Inl e | Inr u \<Rightarrow> Inr (u\<lparr>Scheme := ''https''\<rparr>))"
proof (cases "url_Parse a")
  case None
  with assms(1) show ?thesis by (simp add: strToURL_def)
next
  case (Some v)
  with assms(2) have "Scheme v = ''http''" by simp
  with Some assms(1) show ?thesis by (simp add: strToURL_def Let_def)
qed

lemma strToURL_https:
  "strToURL (''https://'' @ r) =
     (case strToURL (''http://'' @ r) of Inl e \<Rightarrow> Inl e | Inr u \<Rightarrow> Inr (u\<lparr>Scheme := ''https''\<rparr>))"
  by (rule strToURL_rescheme [OF url_Parse_https url_Parse_http_Scheme])

lemma strToURL_http_Scheme:
  assumes "strToURL (''http://'' @ r) = Inr u"
  shows "Scheme u = ''http''"
proof -
  from strToURL_Inr [OF assms] obtain v where
    v: "url_Parse (''http://'' @ r) = Some v" and u: "Scheme u = Scheme v"
    by auto
  from url_Parse_http_Scheme [OF v] u show ?thesis by simp
qed














text \<open>
  Claim C8.  For every host \<open>h\<close> and path \<open>p\<close>, \<^verbatim>\<open>strToURL\<close> treats \<open>http://h/p\<close> and
  \<open>https://h/p\<close> alike: both fail with the same error, or both parse and the two URLs
  have the same visited-set key.  The key is the URL's string form without the
  leading scheme label: the string form is the scheme followed by the key.
\<close>

theorem canonicalKey_http_https:
  "(case strToURL (''http://'' @ h @ ''/'' @ p) of
      Inl e \<Rightarrow> strToURL (''https://'' @ h @ ''/'' @ p) = Inl e
    | Inr u \<Rightarrow>
        (\<exists>v. strToURL (''https://'' @ h @ ''/'' @ p) = Inr v
             \<and> canonicalKey u = canonicalKey v
             \<and> url_String u = ''http'' @ canonicalKey u
             \<and> url_String v = ''https'' @ canonicalKey v))"
proof (cases "strToURL (''http://'' @ h @ ''/'' @ p)")
  case (Inl e)
  then show ?thesis using strToURL_https[of "h @ ''/'' @ p"] by simp
next
  case (Inr u)
  then have sch: "Scheme u = ''http''" by (rule strToURL_http_Scheme)
  have v: "strToURL (''https://'' @ h @ ''/'' @ p) = Inr (u\<lparr>Scheme := ''https''\<rparr>)"
    using Inr strToURL_https[of "h @ ''/'' @ p"] by simp
  have t: "url_String_tail (u\<lparr>Scheme := ''https''\<rparr>) = url_String_tail u"
    using sch by (simp add: url_String_tail_Scheme)
  have ku: "canonicalKey u = '':'' @ url_String_tail u"
    using sch by (simp add: canonicalKey_Scheme)
  have kv: "canonicalKey (u\<lparr>Scheme := ''https''\<rparr>) = '':'' @ url_String_tail u"
    using t by (simp add: canonicalKey_Scheme)
  have su: "url_String u = ''http'' @ canonicalKey u"
    using sch ku by (simp add: url_String_def)
  have sv: "url_String (u\<lparr>Scheme := ''https''\<rparr>) = ''https'' @ canonicalKey (u\<lparr>Scheme := ''https''\<rparr>)"
    using t kv by (simp add: url_String_def)
  show ?thesis
    using Inr v ku kv su sv by simp
qed


lemma strToURL_example_about:
  "strToURL ''http://example.com/about'' =
     Inr (empty_url\<lparr>Scheme := ''http'', Host := ''example.com'', Path := ''/about''\<rparr>)"
  by code_simp

theorem canonicalKey_http_https_witness:
  "\<exists>u v. strToURL ''http://example.com/about'' = Inr u
        \<and> strToURL ''https://example.com/about'' = Inr v
        \<and> canonicalKey u = canonicalKey v
        \<and> url_String u = ''http'' @ canonicalKey u
        \<and> url_String v = ''https'' @ canonicalKey v"
  using canonicalKey_http_https [of "''example.com''" "''about''"] strToURL_example_about
  by simp

section \<open>Properties of link resolution\<close>

lemma first_occurrences_subset: "set (first_occurrences key xs) \<subseteq> set xs"
  by (induction key xs rule: first_occurrences.induct) auto

lemma first_occurrences_keys: "key ` set (first_occurrences key xs) = key ` set xs"
  by (induction key xs rule: first_occurrences.induct) auto

lemma first_occurrences_distinct: "distinct (map key (first_occurrences key xs))"
proof (induction key xs rule: first_occurrences.induct)
  case (1 key)
  show ?case by simp
next
  case (2 key x xs)
  have "key x \<notin> key ` set (first_occurrences key (filter (\<lambda>y. key y \<noteq> key x) xs))"
    unfolding first_occurrences_keys by auto
  with 2 show ?case by simp
qed

lemma resolved_links_Cons:
  "resolved_links s (link # links) =
     (case strToURL link of Inl e \<Rightarrow> [] | Inr u \<Rightarrow> [resolveURL s u]) @ resolved_links s links"
  by (simp add: resolved_links_def)

lemma resolved_links_append:
  "resolved_links s (xs @ ys) = resolved_links s xs @ resolved_links s ys"
  by (simp add: resolved_links_def)

lemma getNewSites_loop_spec:
  "getNewSites_loop s links urlSet acc =
     acc @ map (\<lambda>u. \<lparr>URL = u, Parent = Some (URL s)\<rparr>)
             (first_occurrences url_String
                (filter (\<lambda>u. \<not> urlSet (url_String u)) (resolved_links s links)))"
proof (induction links arbitrary: urlSet acc)
  case Nil
  show ?case by (simp add: resolved_links_def)
next
  case (Cons link links)
  show ?case
  proof (cases "strToURL link")
    case (Inl e)
    with Cons show ?thesis by (simp add: resolved_links_Cons)
  next
    case (Inr parsed)
    let ?u = "resolveURL s parsed"
    show ?thesis
    proof (cases "urlSet (url_String ?u)")
      case True
      with Inr Cons show ?thesis by (simp add: resolved_links_Cons)
    next
      case False
      have f: "filter (\<lambda>u. \<not> (urlSet(url_String ?u := True)) (url_String u)) xs =
               filter (\<lambda>y. url_String y \<noteq> url_String ?u) (filter (\<lambda>u. \<not> urlSet (url_String u)) xs)" for xs
        by (induction xs) auto
      let ?child = "\<lambda>u. \<lparr>URL = u, Parent = Some (URL s)\<rparr>"
      from False Inr have "getNewSites_loop s (link # links) urlSet acc =
          getNewSites_loop s links (urlSet(url_String ?u := True)) (acc @ [?child ?u])"
        by (simp add: Let_def)
      also have "\<dots> = (acc @ [?child ?u]) @ map ?child (first_occurrences url_String
          (filter (\<lambda>u. \<not> (urlSet(url_String ?u := True)) (url_String u)) (resolved_links s links)))"
        by (rule Cons.IH)
      also have "\<dots> = acc @ map ?child (first_occurrences url_String
          (filter (\<lambda>u. \<not> urlSet (url_String u)) (resolved_links s (link # links))))"
        unfolding f using False Inr by (simp add: resolved_links_Cons)
      finally show ?thesis .
    qed
  qed
qed

lemma getNewSites_spec: "getNewSites s (Inr links) = Inr (spec_children s links)"
  by (simp add: getNewSites_def spec_children_def getNewSites_loop_spec)

lemma getNewSites_drop:
  assumes "strToURL link = Inl e"
  shows "getNewSites s (Inr (pre @ link # post)) = getNewSites s (Inr (pre @ post))"
proof -
  have "resolved_links s (pre @ link # post) = resolved_links s (pre @ post)"
    using assms by (simp add: resolved_links_append resolved_links_Cons)
  then show ?thesis by (simp add: getNewSites_spec spec_children_def)
qed

lemma spec_children_distinct: "distinct (map (\<lambda>c. url_String (URL c)) (spec_children s links))"
proof -
  have "map (\<lambda>c. url_String (URL c)) (spec_children s links)
        = map url_String (first_occurrences url_String (resolved_links s links))"
    by (simp add: spec_children_def comp_def)
  then show ?thesis by (simp add: first_occurrences_distinct)
qed

lemma spec_children_strings:
  "(\<lambda>c. url_String (URL c)) ` set (spec_children s links) = url_String ` set (resolved_links s links)"
proof -
  have "(\<lambda>c. url_String (URL c)) ` set (spec_children s links)
        = url_String ` set (first_occurrences url_String (resolved_links s links))"
    by (force simp: spec_children_def)
  then show ?thesis by (simp add: first_occurrences_keys)
qed

lemma spec_children_member:
  "c \<in> set (spec_children s links) \<Longrightarrow> Parent c = Some (URL s) \<and> URL c \<in> set (resolved_links s links)"
  using first_occurrences_subset [of url_String "resolved_links s links"]
  by (auto simp: spec_children_def)

lemma resolveURL_fields:
  "resolveURL s u = u\<lparr>Scheme := (if Scheme u = [] then Scheme (URL s) else Scheme u),
                       Host := (if Host u = [] then Host (URL s) else Host u)\<rparr>"
  by (simp add: resolveURL_def isRelativeURL_def Let_def)

lemma worker_scrape_step:
  assumes "i < length (workers st)" "workers st ! i = WScrape s" "\<not> panicked st"
    and "scrape web s = Inr sites"
  shows "\<exists>t. step web (Worker i) st = Some t \<and> workQueueSize t = workQueueSize st
            \<and> workers t ! i = (if sites = [] then WResult s sites else WCredit s sites)"
  using assms by (simp add: step_def worker_step_def)

lemma worker_credit_step:
  assumes "i < length (workers st)" "workers st ! i = WCredit s sites" "\<not> panicked st"
    and "checker st = CheckRecv"
  shows "\<exists>t. step web (Worker i) st = Some t
            \<and> workQueueSize t = workQueueSize st + int (length sites)
            \<and> workers t ! i = WResult s sites"
  using assms by (simp add: step_def worker_step_def send_delta_def)

text \<open>
  Claim C9.  For a page \<open>s\<close> and the ordered list of raw hrefs extracted from it,
  \<^verbatim>\<open>getNewSites\<close> returns the children the specification describes: the hrefs that
  parse, resolved against the page (an empty scheme or host is the page's), one
  child per distinct URL string in order of first occurrence, each with the page as
  parent.  An href that fails to parse changes nothing: the list is the same as
  without it.  The worker's scrape step leaves the in-flight counter as it is, and
  the credit it sends next is the length of that child list, so a dropped href is
  never counted and never retired.
\<close>

theorem getNewSites_children:
  "getNewSites s (Inr links) = Inr (spec_children s links)
   \<and> distinct (map (\<lambda>c. url_String (URL c)) (spec_children s links))
   \<and> (\<lambda>c. url_String (URL c)) ` set (spec_children s links) = url_String ` set (resolved_links s links)
   \<and> (\<forall>c \<in> set (spec_children s links). Parent c = Some (URL s) \<and> URL c \<in> set (resolved_links s links))
   \<and> (\<forall>u. resolveURL s u = u\<lparr>Scheme := (if Scheme u = [] then Scheme (URL s) else Scheme u),
                               Host := (if Host u = [] then Host (URL s) else Host u)\<rparr>)
   \<and> (\<forall>pre link post e. strToURL link = Inl e \<longrightarrow>
         getNewSites s (Inr (pre @ link # post)) = getNewSites s (Inr (pre @ post)))
   \<and> (\<forall>web st i sites.
         i < length (workers st) \<and> workers st ! i = WScrape s \<and> \<not> panicked st \<and> scrape web s = Inr sites \<longrightarrow>
         (\<exists>t. step web (Worker i) st = Some t \<and> workQueueSize t = workQueueSize st
             \<and> workers t ! i = (if sites = [] then WResult s sites else WCredit s sites)))
   \<and> (\<forall>web st i sites.
         i < length (workers st) \<and> workers st ! i = WCredit s sites \<and> \<not> panicked st \<and> checker st = CheckRecv \<longrightarrow>
         (\<exists>t. step web (Worker i) st = Some t
             \<and> workQueueSize t = workQueueSize st + int (length sites)
             \<and> workers t ! i = WResult s sites))"
proof -
  have members: "\<forall>c \<in> set (spec_children s links).
      Parent c = Some (URL s) \<and> URL c \<in> set (resolved_links s links)"
    using spec_children_member by blast
  have resolve: "\<forall>u. resolveURL s u =
      u\<lparr>Scheme := (if Scheme u = [] then Scheme (URL s) else Scheme u),
        Host := (if Host u = [] then Host (URL s) else Host u)\<rparr>"
    using resolveURL_fields by blast
  have dropped: "\<forall>pre link post e. strToURL link = Inl e \<longrightarrow>
      getNewSites s (Inr (pre @ link # post)) = getNewSites s (Inr (pre @ post))"
    using getNewSites_drop by blast
  have scraped: "\<forall>web st i sites.
      i < length (workers st) \<and> workers st ! i = WScrape s \<and> \<not> panicked st \<and> scrape web s = Inr sites \<longrightarrow>
      (\<exists>t. step web (Worker i) st = Some t \<and> workQueueSize t = workQueueSize st
          \<and> workers t ! i = (if sites = [] then WResult s sites else WCredit s sites))"
    using worker_scrape_step by blast
  have credited: "\<forall>web st i sites.
      i < length (workers st) \<and> workers st ! i = WCredit s sites \<and> \<not> panicked st \<and> checker st = CheckRecv \<longrightarrow>
      (\<exists>t. step web (Worker i) st = Some t
          \<and> workQueueSize t = workQueueSize st + int (length sites)
          \<and> workers t ! i = WResult s sites)"
    using worker_credit_step by blast
  show ?thesis
    using getNewSites_spec [of s links] spec_children_distinct [of s links]
      spec_children_strings [of s links] members resolve dropped scraped credited
    by blast
qed

lemma strToURL_mailto: "strToURL ''mailto:test@test.mock'' = Inl ErrInvalidURLScheme"
  by code_simp

lemma example_children:
  "getNewSites example_page (Inr [''/a'', ''/a/'', ''https://x.org/'']) =
     Inr [\<lparr>URL = empty_url\<lparr>Scheme := ''http'', Host := ''h'', Path := ''/a''\<rparr>, Parent = Some (URL example_page)\<rparr>,
          \<lparr>URL = empty_url\<lparr>Scheme := ''https'', Host := ''x.org''\<rparr>, Parent = Some (URL example_page)\<rparr>]"
  by code_simp

theorem getNewSites_children_witness:
  "getNewSites example_page (Inr [''/a'', ''mailto:test@test.mock'', ''/a/'', ''https://x.org/'']) =
     Inr [\<lparr>URL = empty_url\<lparr>Scheme := ''http'', Host := ''h'', Path := ''/a''\<rparr>, Parent = Some (URL example_page)\<rparr>,
          \<lparr>URL = empty_url\<lparr>Scheme := ''https'', Host := ''x.org''\<rparr>, Parent = Some (URL example_page)\<rparr>]"
proof -
  from getNewSites_children [of example_page "[''/a'', ''/a/'', ''https://x.org/'']"]
  have "getNewSites example_page (Inr ([''/a''] @ ''mailto:test@test.mock'' # [''/a/'', ''https://x.org/''])) =
        getNewSites example_page (Inr ([''/a''] @ [''/a/'', ''https://x.org/'']))"
    using strToURL_mailto by blast
  then show ?thesis using example_children by simp
qed

section \<open>Per-page deduplication and the visited set\<close>










section \<open>The dedup/filter stage\<close>

lemma appender_recv_step:
  assumes "\<not> panicked s" "appender s = AppRecv" "siteFilterQueue s = site # q"
  shows "\<exists>t. step web Appender s = Some t \<and> siteFilterQueue t = q
      \<and> workQueue t = workQueue s \<and> workQueueSize t = workQueueSize s
      \<and> (if isExternalURL site \<or> isMediaURL (URL site)
            then visitedSites t = visitedSites s \<and> appender t = AppRetire
          else if visitedSites s (canonicalKey (URL site))
            then visitedSites t = visitedSites s \<and> appender t = AppRetire
          else visitedSites t = (visitedSites s)(canonicalKey (URL site) := True)
               \<and> appender t = AppForward site)"
  using assms by (simp add: step_def appender_step_def appender_body_def Let_def)

lemma appender_retire_step:
  assumes "\<not> panicked s" "appender s = AppRetire" "checker s = CheckRecv"
  shows "\<exists>t. step web Appender s = Some t \<and> workQueueSize t = workQueueSize s - 1
      \<and> workQueue t = workQueue s \<and> visitedSites t = visitedSites s
      \<and> siteFilterQueue t = siteFilterQueue s \<and> appender t = AppRecv"
  using assms by (simp add: step_def appender_step_def send_delta_def)

lemma appender_forward_step:
  assumes "\<not> panicked s" "appender s = AppForward site" "\<not> workQueueClosed s"
    "length (workQueue s) < workQueueCapacity s"
  shows "\<exists>t. step web Appender s = Some t \<and> workQueue t = workQueue s @ [site]
      \<and> workQueueSize t = workQueueSize s \<and> visitedSites t = visitedSites s
      \<and> siteFilterQueue t = siteFilterQueue s \<and> appender t = AppRecv"
  using assms by (simp add: step_def appender_step_def)

text \<open>The three outcomes while the work queue is open.  When the appender takes a
  site from the filter queue, an external or media site leaves the visited set as it
  is and the appender goes on to send a single delta of \<open>-1\<close>; so does a site whose
  key is already in the visited set; any other site has its key inserted and is the
  site the appender sends next, unchanged, on the work queue.  The receive itself
  changes neither the counter nor the work queue; the retirement lowers the counter
  by one and forwards nothing; the forward, on a work queue that has not been
  closed, appends the site to the work queue and sends no delta.\<close>

lemma appender_outcomes_open_queue:
  "(\<not> panicked s \<and> appender s = AppRecv \<and> siteFilterQueue s = site # q \<longrightarrow>
      (\<exists>t. step web Appender s = Some t \<and> siteFilterQueue t = q
         \<and> workQueue t = workQueue s \<and> workQueueSize t = workQueueSize s
         \<and> (if isExternalURL site \<or> isMediaURL (URL site)
               then visitedSites t = visitedSites s \<and> appender t = AppRetire
             else if visitedSites s (canonicalKey (URL site))
               then visitedSites t = visitedSites s \<and> appender t = AppRetire
             else visitedSites t = (visitedSites s)(canonicalKey (URL site) := True)
                  \<and> appender t = AppForward site)))
   \<and> (\<not> panicked s \<and> appender s = AppRetire \<and> checker s = CheckRecv \<longrightarrow>
        (\<exists>t. step web Appender s = Some t \<and> workQueueSize t = workQueueSize s - 1
           \<and> workQueue t = workQueue s \<and> visitedSites t = visitedSites s
           \<and> siteFilterQueue t = siteFilterQueue s \<and> appender t = AppRecv))
   \<and> (\<not> panicked s \<and> appender s = AppForward site \<and> \<not> workQueueClosed s
         \<and> length (workQueue s) < workQueueCapacity s \<longrightarrow>
        (\<exists>t. step web Appender s = Some t \<and> workQueue t = workQueue s @ [site]
           \<and> workQueueSize t = workQueueSize s \<and> visitedSites t = visitedSites s
           \<and> siteFilterQueue t = siteFilterQueue s \<and> appender t = AppRecv))"
  using appender_recv_step [of s site q web] appender_retire_step [of s web]
    appender_forward_step [of s site web]
  by blast

lemma example_page_internal: "\<not> isExternalURL example_page" "\<not> isMediaURL (URL example_page)"
  by (simp_all add: example_page_def isExternalURL_def isMediaURL_def HasSuffix_def empty_url_def)

lemma example_filtering_fields:
  "\<not> panicked example_filtering" "appender example_filtering = AppRecv"
  "siteFilterQueue example_filtering = example_page # []"
  "\<not> visitedSites example_filtering (canonicalKey (URL example_page))"
  "workQueueSize example_filtering = 0"
  by (simp_all add: example_filtering_def init_def)

lemma example_retiring_fields:
  "\<not> panicked example_retiring" "appender example_retiring = AppRetire"
  "checker example_retiring = CheckRecv" "workQueueSize example_retiring = 1"
  by (simp_all add: example_retiring_def init_def)

lemma example_forwarding_fields:
  "\<not> panicked example_forwarding" "appender example_forwarding = AppForward example_page"
  "\<not> workQueueClosed example_forwarding" "workQueue example_forwarding = []"
  "workQueueCapacity example_forwarding = 2" "workQueueSize example_forwarding = 0"
  by (simp_all add: example_forwarding_def init_def example_crawler_def)

lemma appender_outcomes_open_queue_example:
  "(\<exists>t. step web_down Appender example_filtering = Some t \<and> siteFilterQueue t = []
      \<and> workQueueSize t = 0 \<and> appender t = AppForward example_page
      \<and> visitedSites t (canonicalKey (URL example_page)))
   \<and> (\<exists>t. step web_down Appender example_retiring = Some t \<and> workQueueSize t = 0
      \<and> workQueue t = [] \<and> appender t = AppRecv)
   \<and> (\<exists>t. step web_down Appender example_forwarding = Some t \<and> workQueue t = [example_page]
      \<and> workQueueSize t = 0 \<and> appender t = AppRecv)"
proof -
  have a: "\<exists>t. step web_down Appender example_filtering = Some t \<and> siteFilterQueue t = []
      \<and> workQueueSize t = 0 \<and> appender t = AppForward example_page
      \<and> visitedSites t (canonicalKey (URL example_page))"
    using appender_outcomes_open_queue [of example_filtering example_page "[]" web_down]
      example_filtering_fields example_page_internal
    by auto
  have b: "\<exists>t. step web_down Appender example_retiring = Some t \<and> workQueueSize t = 0
      \<and> workQueue t = [] \<and> appender t = AppRecv"
    using appender_outcomes_open_queue [of example_retiring example_page "[]" web_down]
      example_retiring_fields
    by (auto simp: example_retiring_def init_def)
  have c: "\<exists>t. step web_down Appender example_forwarding = Some t \<and> workQueue t = [example_page]
      \<and> workQueueSize t = 0 \<and> appender t = AppRecv"
    using appender_outcomes_open_queue [of example_forwarding example_page "[]" web_down]
      example_forwarding_fields
    by auto
  from a b c show ?thesis by blast
qed

text \<open>
  Claim C3.  The claim: every site the appender consumes is retired with a single
  \<open>-1\<close> or, when it is internal, not media and its key is new, has its key inserted
  and is forwarded to the work queue.  The code: the forward is a send on the work
  queue, and the work queue may have been closed while the site was on its way.  On
  the site of two pages, with the seed's \<open>+1\<close> still unsent when the counter returns
  to zero, the work queue is closed with the child \<^verbatim>\<open>http://h/b\<close> in the filter queue.
  The appender consumes the child and inserts its key; its send on the closed work
  queue panics: the child is not forwarded and no delta is sent.
\<close>

theorem forward_on_closed_queue_panics:
  "map_sum id (map_option (\<lambda>s. (siteFilterQueue s, appender s, visitedSites s (canonicalKey (URL child_b)),
                                  workQueueClosed s, workQueue s, workQueueSize s, panicked s)))
     (Run create_ok one_link_web (late_credit_schedule @ [Sender 0]) example_crawler)
   = Inr (Some ([child_b], AppRecv, False, True, [], 0, False))
   \<and> map_sum id (map_option (\<lambda>s. (siteFilterQueue s, appender s, visitedSites s (canonicalKey (URL child_b)),
                                    workQueueClosed s, workQueue s, workQueueSize s, panicked s)))
       (Run create_ok one_link_web (late_credit_schedule @ [Sender 0, Appender]) example_crawler)
     = Inr (Some ([], AppForward child_b, True, True, [], 0, False))
   \<and> map_sum id (map_option (\<lambda>s. (siteFilterQueue s, appender s, visitedSites s (canonicalKey (URL child_b)),
                                    workQueueClosed s, workQueue s, workQueueSize s, panicked s)))
       (Run create_ok one_link_web (late_credit_schedule @ [Sender 0, Appender, Appender]) example_crawler)
     = Inr (Some ([], AppForward child_b, True, True, [], 0, True))"
  by code_simp

section \<open>Validation\<close>

lemma strToAbsoluteURL_cases:
  "strToAbsoluteURL raw =
     (case url_Parse raw of
        None \<Rightarrow> Inl ErrInvalidURL
      | Some v \<Rightarrow>
          if Scheme v \<noteq> [] \<and> Scheme v \<noteq> ''http'' \<and> Scheme v \<noteq> ''https'' then Inl ErrInvalidURLScheme
          else if Scheme v = [] \<or> Host v = [] then Inl ErrInvalidAbsoluteURL
          else Inr (v\<lparr>Fragment := [],
                     Path := (if TrimSuffix (Path v) ''/'' = ''.'' then [] else TrimSuffix (Path v) ''/'')\<rparr>))"
  by (auto simp: strToAbsoluteURL_def strToURL_def Let_def split: option.splits)

text \<open>
  Claim C6, as amended.  \<^verbatim>\<open>Run\<close> returns the error of the first check that fails,
  in this order: the seed URL (\<open>ErrInvalidURL\<close> when it does not parse,
  \<open>ErrInvalidURLScheme\<close> for a scheme other than http and https,
  \<open>ErrInvalidAbsoluteURL\<close> when scheme or host is empty), a worker count \<open>\<le> 0\<close>
  (\<open>ErrInvalidNumWorkers\<close>), a timeout \<open>< 0\<close> (\<open>ErrInvalidHTTPClientTimeout\<close>) and,
  only when no writer is configured, the creation of the output file (a
  file-creation error).  The error is returned before \<^verbatim>\<open>init\<close> and before any
  goroutine takes a step; a configuration that passes every check, and only such
  a configuration, proceeds to the pipeline.
\<close>

theorem Run_validation_order:
  "Run create web schedule c =
     (case url_Parse (SeedURL c) of
        None \<Rightarrow> Inl ErrInvalidURL
      | Some v \<Rightarrow>
          if Scheme v \<noteq> [] \<and> Scheme v \<noteq> ''http'' \<and> Scheme v \<noteq> ''https'' then Inl ErrInvalidURLScheme
          else if Scheme v = [] \<or> Host v = [] then Inl ErrInvalidAbsoluteURL
          else if NumWorkers c \<le> 0 then Inl ErrInvalidNumWorkers
          else if HTTPClientTimeoutSec c < 0 then Inl ErrInvalidHTTPClientTimeout
          else (case SiteMapWriter c of
                  Some w \<Rightarrow> Inr (exec web schedule (init (c\<lparr>SiteMapOutputFile := output_file c\<rparr>)))
                | None \<Rightarrow>
                    (case create (output_file c) of
                       Some msg \<Rightarrow> Inl (ErrCreateSiteMap msg)
                     | None \<Rightarrow>
                         Inr (exec web schedule
                               (init (c\<lparr>SiteMapOutputFile := output_file c,
                                        SiteMapWriter := Some (FileWriter (output_file c))\<rparr>))))))"
  unfolding Run_def validate_def strToAbsoluteURL_cases output_file_def
  by (auto simp: Let_def split: option.splits)

theorem Run_validation_order_witness:
  "Run create_ok web_down [] example_crawler = Inr (Some (init example_crawler))
   \<and> Run create_ok web_down [] (example_crawler\<lparr>NumWorkers := 0\<rparr>) = Inl ErrInvalidNumWorkers
   \<and> Run create_ok web_down [] (example_crawler\<lparr>HTTPClientTimeoutSec := - 1\<rparr>) = Inl ErrInvalidHTTPClientTimeout
   \<and> Run create_ok web_down [] (example_crawler\<lparr>SeedURL := [], NumWorkers := 0\<rparr>) = Inl ErrInvalidAbsoluteURL"
proof -
  have p: "url_Parse ''http://h'' = Some (empty_url\<lparr>Scheme := ''http'', Host := ''h''\<rparr>)"
    by code_simp
  have q: "url_Parse [] = Some empty_url"
    by code_simp
  have i: "init (example_crawler\<lparr>SiteMapOutputFile := ''/dev/stdout''\<rparr>) = init example_crawler"
    by (simp add: init_def example_crawler_def)
  show ?thesis
    using Run_validation_order [of create_ok web_down "[]" example_crawler]
      Run_validation_order [of create_ok web_down "[]" "example_crawler\<lparr>NumWorkers := 0\<rparr>"]
      Run_validation_order [of create_ok web_down "[]" "example_crawler\<lparr>HTTPClientTimeoutSec := - 1\<rparr>"]
      Run_validation_order [of create_ok web_down "[]" "example_crawler\<lparr>SeedURL := [], NumWorkers := 0\<rparr>"]
      p q i
    by (simp add: example_crawler_def output_file_def empty_url_def)
qed

text \<open>The claim as stated names the absolute-URL error or the scheme error for every
  invalid seed.  The seed \<open>:\<close> does not parse, and \<^verbatim>\<open>Run\<close> returns \<open>ErrInvalidURL\<close>,
  which is neither.\<close>

theorem Run_unparsable_seed_counterexample:
  "Run create_ok web_down [] colon_seed_crawler = Inl ErrInvalidURL
   \<and> ErrInvalidURL \<noteq> ErrInvalidAbsoluteURL \<and> ErrInvalidURL \<noteq> ErrInvalidURLScheme"
proof -
  have "url_Parse '':'' = None" by code_simp
  then show ?thesis
    by (simp add: Run_def validate_def strToAbsoluteURL_def strToURL_def colon_seed_crawler_def)
qed

section \<open>Invariants along every schedule\<close>

lemma exec_invariant:
  assumes "\<And>g s t. P s \<Longrightarrow> step web g s = Some t \<Longrightarrow> P t"
  shows "P s0 \<Longrightarrow> exec web gs s0 = Some s \<Longrightarrow> P s"
proof (induction gs arbitrary: s0)
  case Nil
  then show ?case by simp
next
  case (Cons g gs)
  from Cons.prems(2) obtain t where t: "step web g s0 = Some t" and r: "exec web gs t = Some s"
    by (auto split: option.splits)
  from assms [OF Cons.prems(1) t] have "P t" .
  from Cons.IH [OF this r] show ?case .
qed

lemma mset_concat_update:
  "i < length ws \<Longrightarrow>
     mset (concat (map f (ws[i := w]))) + mset (f (ws ! i)) = mset (concat (map f ws)) + mset (f w)"
proof (induction ws arbitrary: i)
  case Nil
  then show ?case by simp
next
  case (Cons a ws)
  show ?case
  proof (cases i)
    case 0
    then show ?thesis by simp
  next
    case (Suc j)
    with Cons.prems have "j < length ws" by simp
    from Cons.IH [OF this] Suc show ?thesis by (simp add: ac_simps)
  qed
qed

lemma mset_concat_update_same:
  assumes "i < length ws" "mset (f (ws ! i)) = mset (f w)"
  shows "mset (concat (map f (ws[i := w]))) = mset (concat (map f ws))"
  using mset_concat_update [OF assms(1), of f w] assms(2) by simp

lemma send_delta_admitted:
  "send_delta d s = Some t \<Longrightarrow> admitted t = admitted s \<and> visitedSites t = visitedSites s
     \<and> workers t = workers s \<and> appender t = appender s \<and> fetched t = fetched s \<and> workQueue t = workQueue s"
  by (auto simp: send_delta_def admitted_def split: if_splits)

lemma send_filter_admitted:
  "send_filter x s = Some t \<Longrightarrow> admitted t = admitted s \<and> visitedSites t = visitedSites s
     \<and> workers t = workers s \<and> appender t = appender s \<and> fetched t = fetched s \<and> workQueue t = workQueue s"
  by (auto simp: send_filter_def admitted_def split: if_splits)

lemma seeder_admits: "seeder_step s = Some t \<Longrightarrow> admits s t"
  by (auto simp: seeder_step_def admits_def admitted_def split: seeder_pc.splits sum.splits
      dest!: send_delta_admitted send_filter_admitted)

lemma checker_admits: "checker_step s = Some t \<Longrightarrow> admits s t"
  by (auto simp: checker_step_def admits_def admitted_def split: checker_pc.splits if_splits)

lemma builder_admits: "builder_step s = Some t \<Longrightarrow> admits s t"
  by (auto simp: builder_step_def admits_def admitted_def split: builder_pc.splits if_splits list.splits)

lemma main_admits: "main_step s = Some t \<Longrightarrow> admits s t"
  by (auto simp: main_step_def admits_def admitted_def split: main_pc.splits if_splits)

lemma sender_admits: "sender_step j s = Some t \<Longrightarrow> admits s t"
  by (auto simp: sender_step_def admits_def admitted_def split: if_splits list.splits
      dest!: send_filter_admitted)

lemma appender_admits: "appender_step s = Some t \<Longrightarrow> admits s t"
  by (auto simp: appender_step_def appender_body_def admits_def admitted_def key_of_def Let_def
      split: appender_pc.splits if_splits list.splits dest!: send_delta_admitted)

lemma worker_admits:
  assumes "worker_step web i s = Some t"
  shows "admits s t"
proof -
  from assms have i: "i < length (workers s)"
    by (auto simp: worker_step_def split: if_splits)
  show ?thesis
  proof (cases "workers s ! i")
    case WRecv
    with assms i show ?thesis
      by (auto simp: worker_step_def admits_def admitted_def mset_concat_update_same
          split: list.splits if_splits)
         (use mset_concat_update [OF i, of scraping] WRecv in \<open>simp add: ac_simps\<close>)
  next
    case (WScrape x)
    have "mset (concat (map scraping ((workers s)[i := w]))) + {#x#} = mset (concat (map scraping (workers s)))"
      if "scraping w = []" for w
      using mset_concat_update [OF i, of scraping w] WScrape that by simp
    then have "mset (concat (map scraping ((workers s)[i := w]))) + {#x#} = mset (concat (map scraping (workers s)))"
      if "w = WRetire \<or> w = WCredit x ch \<or> w = WResult x ch" for w ch
      using that by auto
    with assms i WScrape show ?thesis
      by (auto simp: worker_step_def admits_def admitted_def split: sum.splits if_splits)
  next
    case (WCredit x ch)
    with assms i show ?thesis
      by (auto simp: worker_step_def admits_def admitted_def mset_concat_update_same
          dest!: send_delta_admitted)
  next
    case (WResult x ch)
    with assms i show ?thesis
      by (auto simp: worker_step_def admits_def admitted_def mset_concat_update_same
          split: if_splits)
  next
    case WRetire
    with assms i show ?thesis
      by (auto simp: worker_step_def admits_def admitted_def mset_concat_update_same
          dest!: send_delta_admitted)
  next
    case WExit
    with assms i show ?thesis by (simp add: worker_step_def)
  qed
qed

lemma step_admits: "step web g s = Some t \<Longrightarrow> admits s t"
  by (cases g)
     (auto simp: step_def split: if_splits
       intro: seeder_admits checker_admits appender_admits worker_admits sender_admits
         builder_admits main_admits)

lemma distinct_map_mset:
  "mset xs = mset ys \<Longrightarrow> distinct (map f xs) = distinct (map f ys)"
  by (metis mset_eq_imp_distinct_iff mset_map)

lemma dedup_inv_step:
  assumes "dedup_inv s" "step web g s = Some t"
  shows "dedup_inv t"
proof -
  from step_admits [OF assms(2)] consider
    (same) "mset (admitted t) = mset (admitted s)" "visitedSites t = visitedSites s"
  | (admit) x where "\<not> visitedSites s (key_of x)" "mset (admitted t) = add_mset x (mset (admitted s))"
      "visitedSites t = (visitedSites s)(key_of x := True)"
    unfolding admits_def by blast
  then show ?thesis
  proof cases
    case same
    from same(1) have "set (admitted t) = set (admitted s)" by (rule mset_eq_setD)
    with assms(1) same distinct_map_mset [OF same(1), of key_of] show ?thesis
      by (simp add: dedup_inv_def list_all_iff)
  next
    case (admit x)
    from admit(2) have m: "mset (admitted t) = mset (x # admitted s)" by simp
    then have st: "set (admitted t) = set (x # admitted s)" by (rule mset_eq_setD)
    from assms(1) admit(1) have "key_of x \<notin> key_of ` set (admitted s)"
      by (auto simp: dedup_inv_def list_all_iff)
    with assms(1) distinct_map_mset [OF m, of key_of] st admit(3) show ?thesis
      by (auto simp: dedup_inv_def list_all_iff)
  qed
qed

lemma dedup_inv_init: "dedup_inv (init c)"
  by (simp add: dedup_inv_def admitted_def init_def)

lemma dedup_inv_exec: "exec web gs (init c) = Some s \<Longrightarrow> dedup_inv s"
  by (rule exec_invariant [where P = dedup_inv, OF dedup_inv_step dedup_inv_init])

lemma distinct_map_filter_le_1:
  "distinct (map f xs) \<Longrightarrow> length (filter (\<lambda>x. f x = k) xs) \<le> 1"
proof (induction xs)
  case Nil
  show ?case by simp
next
  case (Cons a xs)
  show ?case
  proof (cases "f a = k")
    case True
    from Cons.prems have "f a \<notin> f ` set xs" by simp
    with True have "\<forall>x\<in>set xs. f x \<noteq> k" by blast
    then have "filter (\<lambda>x. f x = k) xs = []"
      by (simp add: filter_empty_conv)
    with True show ?thesis by simp
  next
    case False
    with Cons show ?thesis by simp
  qed
qed

lemma example_run:
  "(case Run create_ok example_web example_schedule example_crawler of
      Inr (Some s) \<Rightarrow>
        sitemap s = [''http://h -> http://h/a.pdf'' @ [CHR 0x0A], ''http://h -> https://x.org'' @ [CHR 0x0A],
                     ''http://h -> http://h/b'' @ [CHR 0x0A], ''http://h/b -> http://h'' @ [CHR 0x0A],
                     ''http://h/b -> http://h/c'' @ [CHR 0x0A]]
        \<and> mainRun s = MainReturned \<and> workQueueSize s = 0 \<and> \<not> panicked s
        \<and> map (\<lambda>x. url_String (URL x)) (fetched s) = [''http://h'', ''http://h/b'', ''http://h/c'']
    | _ \<Rightarrow> False)"
  by code_simp

lemma example_run_state:
  obtains s where "Run create_ok example_web example_schedule example_crawler = Inr (Some s)"
    and "sitemap s = [''http://h -> http://h/a.pdf'' @ [CHR 0x0A], ''http://h -> https://x.org'' @ [CHR 0x0A],
                      ''http://h -> http://h/b'' @ [CHR 0x0A], ''http://h/b -> http://h'' @ [CHR 0x0A],
                      ''http://h/b -> http://h/c'' @ [CHR 0x0A]]"
    and "mainRun s = MainReturned"
    and "map (\<lambda>x. url_String (URL x)) (fetched s) = [''http://h'', ''http://h/b'', ''http://h/c'']"
  using example_run by (auto split: sum.splits option.splits)

text \<open>
  Claim C4.  In every state a run of the crawl reaches, under every schedule, web
  and configuration, the sites the workers have called \<^verbatim>\<open>scrape\<close> on have pairwise
  different visited-set keys: for every key, at most one fetch attempt.
\<close>

theorem no_key_fetched_twice:
  "Run create web schedule c = Inr (Some s) \<Longrightarrow>
     distinct (map (\<lambda>x. canonicalKey (URL x)) (fetched s))
     \<and> (\<forall>k. length (filter (\<lambda>x. canonicalKey (URL x) = k) (fetched s)) \<le> 1)"
proof -
  assume "Run create web schedule c = Inr (Some s)"
  then obtain c1 where "exec web schedule (init c1) = Some s"
    by (auto simp: Run_def split: sum.splits)
  then have "dedup_inv s" by (rule dedup_inv_exec)
  then have d: "distinct (map key_of (fetched s))"
    by (simp add: dedup_inv_def admitted_def)
  have "length (filter (\<lambda>x. key_of x = k) (fetched s)) \<le> 1" for k
    using d by (rule distinct_map_filter_le_1)
  with d show ?thesis unfolding key_of_def by simp
qed

theorem no_key_fetched_twice_witness:
  "\<exists>s. Run create_ok example_web example_schedule example_crawler = Inr (Some s)
      \<and> map (\<lambda>x. url_String (URL x)) (fetched s) = [''http://h'', ''http://h/b'', ''http://h/c'']
      \<and> distinct (map (\<lambda>x. canonicalKey (URL x)) (fetched s))"
proof -
  obtain s where s: "Run create_ok example_web example_schedule example_crawler = Inr (Some s)"
    and f: "map (\<lambda>x. url_String (URL x)) (fetched s) = [''http://h'', ''http://h/b'', ''http://h/c'']"
    by (rule example_run_state)
  from no_key_fetched_twice [OF s] s f show ?thesis by (intro exI [of _ s]) simp
qed

section \<open>The sitemap\<close>

lemma send_delta_accounted:
  "send_delta d s = Some t \<Longrightarrow> accounted t = accounted s \<and> fetched t = fetched s \<and> workers t = workers s
     \<and> sitemap t = sitemap s \<and> resultQueue t = resultQueue s"
  by (auto simp: send_delta_def accounted_def split: if_splits)

lemma send_filter_accounted:
  "send_filter x s = Some t \<Longrightarrow> accounted t = accounted s \<and> fetched t = fetched s \<and> workers t = workers s
     \<and> sitemap t = sitemap s \<and> resultQueue t = resultQueue s"
  by (auto simp: send_filter_def accounted_def split: if_splits)

lemma seeder_accounts: "seeder_step s = Some t \<Longrightarrow> accounts web s t"
  by (auto simp: seeder_step_def accounts_def accounted_def split: seeder_pc.splits sum.splits
      dest!: send_delta_accounted send_filter_accounted)

lemma checker_accounts: "checker_step s = Some t \<Longrightarrow> accounts web s t"
  by (auto simp: checker_step_def accounts_def accounted_def split: checker_pc.splits if_splits)

lemma appender_accounts: "appender_step s = Some t \<Longrightarrow> accounts web s t"
  by (auto simp: appender_step_def accounts_def accounted_def
      split: appender_pc.splits if_splits list.splits prod.splits appender_send.splits
      dest!: send_delta_accounted)

lemma sender_accounts: "sender_step j s = Some t \<Longrightarrow> accounts web s t"
  by (auto simp: sender_step_def accounts_def accounted_def split: if_splits list.splits
      dest!: send_filter_accounted)

lemma builder_accounts: "builder_step s = Some t \<Longrightarrow> accounts web s t"
  by (auto simp: builder_step_def accounts_def accounted_def result_lines_def
      split: builder_pc.splits if_splits list.splits)

lemma main_accounts: "main_step s = Some t \<Longrightarrow> accounts web s t"
  by (auto simp: main_step_def accounts_def accounted_def split: main_pc.splits if_splits)

lemma worker_accounts:
  assumes "worker_step web i s = Some t"
  shows "accounts web s t"
proof -
  from assms have i: "i < length (workers s)"
    by (auto simp: worker_step_def split: if_splits)
  note upd = mset_concat_update [OF i, of holding]
  show ?thesis
  proof (cases "workers s ! i")
    case WRecv
    with assms i show ?thesis
      by (auto simp: worker_step_def accounts_def accounted_def mset_concat_update_same
          split: list.splits if_splits)
  next
    case (WScrape x)
    have "mset (concat (map holding ((workers s)[i := w]))) = mset (concat (map holding (workers s))) + mset (holding w)" for w
      using upd [of w] WScrape by simp
    with assms i WScrape show ?thesis
      by (auto simp: worker_step_def accounts_def accounted_def edges_def split: sum.splits if_splits)
  next
    case (WCredit x ch)
    with assms i show ?thesis
      by (auto simp: worker_step_def accounts_def accounted_def mset_concat_update_same
          dest!: send_delta_accounted)
  next
    case (WResult x ch)
    have "mset (result_lines \<lparr>SourceSite = x, ChildrenSites = ch\<rparr>) + mset (concat (map holding ((workers s)[i := WRetire])))
          = mset (concat (map holding (workers s)))"
      using upd [of WRetire] WResult by (simp add: ac_simps)
    with assms i WResult show ?thesis
      by (auto simp: worker_step_def accounts_def accounted_def split: if_splits)
  next
    case WRetire
    with assms i show ?thesis
      by (auto simp: worker_step_def accounts_def accounted_def mset_concat_update_same
          dest!: send_delta_accounted)
  next
    case WExit
    with assms i show ?thesis by (simp add: worker_step_def)
  qed
qed

lemma step_accounts: "step web g s = Some t \<Longrightarrow> accounts web s t"
  by (cases g)
     (auto simp: step_def split: if_splits
       intro: seeder_accounts checker_accounts appender_accounts worker_accounts sender_accounts
         builder_accounts main_accounts)

lemma edges_inv_step:
  assumes "edges_inv web s" "step web g s = Some t"
  shows "edges_inv web t"
  using step_accounts [OF assms(2)] assms(1)
  by (auto simp: accounts_def edges_inv_def)

lemma holding_replicate: "concat (map holding (replicate n WRecv)) = []"
  by (induction n) simp_all

lemma edges_inv_init: "edges_inv web (init c)"
  by (simp add: edges_inv_def accounted_def init_def holding_replicate del: map_replicate)

lemma send_delta_shutdown:
  "send_delta d s = Some t \<Longrightarrow> mainRun t = mainRun s \<and> builder t = builder s \<and> workers t = workers s
     \<and> resultQueue t = resultQueue s \<and> resultClosed t = resultClosed s"
  by (auto simp: send_delta_def split: if_splits)

lemma send_filter_shutdown:
  "send_filter x s = Some t \<Longrightarrow> mainRun t = mainRun s \<and> builder t = builder s \<and> workers t = workers s
     \<and> resultQueue t = resultQueue s \<and> resultClosed t = resultClosed s"
  by (auto simp: send_filter_def split: if_splits)

lemma seeder_shutdown: "shutdown_inv s \<Longrightarrow> seeder_step s = Some t \<Longrightarrow> shutdown_inv t"
  by (auto simp: seeder_step_def shutdown_inv_def split: seeder_pc.splits sum.splits
      dest!: send_delta_shutdown send_filter_shutdown)

lemma checker_shutdown: "shutdown_inv s \<Longrightarrow> checker_step s = Some t \<Longrightarrow> shutdown_inv t"
  by (auto simp: checker_step_def shutdown_inv_def split: checker_pc.splits if_splits)

lemma appender_shutdown: "shutdown_inv s \<Longrightarrow> appender_step s = Some t \<Longrightarrow> shutdown_inv t"
  by (auto simp: appender_step_def shutdown_inv_def
      split: appender_pc.splits if_splits list.splits prod.splits appender_send.splits
      dest!: send_delta_shutdown)

lemma sender_shutdown: "shutdown_inv s \<Longrightarrow> sender_step j s = Some t \<Longrightarrow> shutdown_inv t"
  by (auto simp: sender_step_def shutdown_inv_def split: if_splits list.splits
      dest!: send_filter_shutdown)

lemma builder_shutdown: "shutdown_inv s \<Longrightarrow> builder_step s = Some t \<Longrightarrow> shutdown_inv t"
  by (auto simp: builder_step_def shutdown_inv_def split: builder_pc.splits if_splits list.splits)

lemma main_shutdown: "shutdown_inv s \<Longrightarrow> main_step s = Some t \<Longrightarrow> shutdown_inv t"
  by (auto simp: main_step_def shutdown_inv_def split: main_pc.splits if_splits)

lemma worker_exited_blocked:
  "list_all (\<lambda>w. w = WExit) (workers s) \<Longrightarrow> worker_step web i s = None"
  by (auto simp: worker_step_def list_all_length)

lemma worker_shutdown:
  assumes "shutdown_inv s" "worker_step web i s = Some t"
  shows "shutdown_inv t"
proof -
  from assms(2) worker_exited_blocked [of s web i]
  have alive: "\<not> list_all (\<lambda>w. w = WExit) (workers s)" by auto
  with assms(1) have w: "mainRun s = MainWait" by (auto simp: shutdown_inv_def)
  from assms(2) have i: "i < length (workers s)"
    by (auto simp: worker_step_def split: if_splits)
  from assms(2) i have m: "mainRun t = mainRun s" "builder t = builder s"
    by (auto simp: worker_step_def split: worker_pc.splits list.splits if_splits sum.splits
        dest!: send_delta_shutdown)
  from assms(2) i have r: "resultClosed s \<Longrightarrow> resultQueue t = resultQueue s \<and> resultClosed t"
    by (auto simp: worker_step_def split: worker_pc.splits list.splits if_splits sum.splits
        dest!: send_delta_shutdown)
  from assms(1) w m r show ?thesis by (auto simp: shutdown_inv_def)
qed

lemma shutdown_inv_step:
  assumes "shutdown_inv s" "step web g s = Some t"
  shows "shutdown_inv t"
  using assms
  by (cases g)
     (auto simp: step_def split: if_splits
       intro: seeder_shutdown checker_shutdown appender_shutdown worker_shutdown sender_shutdown
         builder_shutdown main_shutdown)

lemma shutdown_inv_init: "shutdown_inv (init c)"
  by (simp add: shutdown_inv_def init_def)

lemma holding_exited: "list_all (\<lambda>w. w = WExit) ws \<Longrightarrow> concat (map holding ws) = []"
  by (induction ws) auto

lemma returned_accounted:
  assumes "shutdown_inv s" "mainRun s = MainReturned"
  shows "accounted s = sitemap s"
  using assms by (auto simp: shutdown_inv_def accounted_def holding_exited)

lemma mset_append_subset: "mset xs \<subseteq># mset (xs @ ys)"
  by simp

lemma edges_inv_exec:
  assumes "exec web gs (init c) = Some s"
  shows "edges_inv web s"
proof (rule exec_invariant [where P = "edges_inv web" and web = web and gs = gs and ?s0.0 = "init c"])
  show "edges_inv web t" if "edges_inv web u" "step web g u = Some t" for g u t
    using that by (rule edges_inv_step)
  show "edges_inv web (init c)" by (rule edges_inv_init)
  show "exec web gs (init c) = Some s" by (rule assms)
qed

lemma shutdown_inv_exec: "exec web gs (init c) = Some s \<Longrightarrow> shutdown_inv s"
  by (rule exec_invariant [where P = shutdown_inv, OF shutdown_inv_step shutdown_inv_init])

text \<open>The lines written.  In every state a run reaches, each line written to the sink
  is the line \<open>parent -> child\<close> (with a newline) of a site the workers scraped
  successfully and one of its children, counted with multiplicity: nothing else is
  ever written.  Once \<^verbatim>\<open>Run\<close> has returned, the lines written are exactly those, one
  for each scraped page and each child in its list, whether or not the child is
  external, media or ever fetched; and no two scraped pages share a key.\<close>

lemma sitemap_lines_are_edges:
  "Run create web schedule c = Inr (Some s) \<Longrightarrow>
     mset (sitemap s) \<subseteq>#
       mset (concat (map (\<lambda>x. case scrape web x of
                                 Inl err \<Rightarrow> []
                               | Inr sites \<Rightarrow>
                                   map (\<lambda>child. url_String (URL x) @ '' -> '' @ url_String (URL child) @ [CHR 0x0A]) sites)
                         (fetched s)))
     \<and> (mainRun s = MainReturned \<longrightarrow>
          mset (sitemap s) =
            mset (concat (map (\<lambda>x. case scrape web x of
                                      Inl err \<Rightarrow> []
                                    | Inr sites \<Rightarrow>
                                        map (\<lambda>child. url_String (URL x) @ '' -> '' @ url_String (URL child) @ [CHR 0x0A]) sites)
                              (fetched s))))
     \<and> distinct (map (\<lambda>x. canonicalKey (URL x)) (fetched s))"
proof -
  assume "Run create web schedule c = Inr (Some s)"
  then obtain c1 where run: "exec web schedule (init c1) = Some s"
    by (auto simp: Run_def split: sum.splits)
  have e: "edges web = (\<lambda>x. case scrape web x of
                                 Inl err \<Rightarrow> []
                               | Inr sites \<Rightarrow>
                                   map (\<lambda>child. url_String (URL x) @ '' -> '' @ url_String (URL child) @ [CHR 0x0A]) sites)"
    by (auto simp: edges_def result_lines_def sitemap_line_def fun_eq_iff split: sum.splits)
  from run have inv: "edges_inv web s"
    by (rule edges_inv_exec)
  from run have sh: "shutdown_inv s"
    by (rule shutdown_inv_exec)
  from run have "dedup_inv s" by (rule dedup_inv_exec)
  then have d: "distinct (map (\<lambda>x. canonicalKey (URL x)) (fetched s))"
    unfolding key_of_def dedup_inv_def admitted_def by simp
  have "mset (sitemap s) \<subseteq># mset (accounted s)"
    unfolding accounted_def by (rule mset_append_subset)
  with inv have sub: "mset (sitemap s) \<subseteq># mset (concat (map (edges web) (fetched s)))"
    by (simp add: edges_inv_def)
  have "mset (sitemap s) = mset (concat (map (edges web) (fetched s)))" if "mainRun s = MainReturned"
    using returned_accounted [OF sh that] inv by (simp add: edges_inv_def)
  with sub d show ?thesis unfolding e by blast
qed

lemma sitemap_lines_are_edges_example:
  "\<exists>s. Run create_ok example_web example_schedule example_crawler = Inr (Some s)
      \<and> mainRun s = MainReturned
      \<and> sitemap s = [''http://h -> http://h/a.pdf'' @ [CHR 0x0A], ''http://h -> https://x.org'' @ [CHR 0x0A],
                      ''http://h -> http://h/b'' @ [CHR 0x0A], ''http://h/b -> http://h'' @ [CHR 0x0A],
                      ''http://h/b -> http://h/c'' @ [CHR 0x0A]]
      \<and> mset (sitemap s) =
            mset (concat (map (\<lambda>x. case scrape example_web x of
                                      Inl err \<Rightarrow> []
                                    | Inr sites \<Rightarrow>
                                        map (\<lambda>child. url_String (URL x) @ '' -> '' @ url_String (URL child) @ [CHR 0x0A]) sites)
                              (fetched s)))"
proof -
  obtain s where s: "Run create_ok example_web example_schedule example_crawler = Inr (Some s)"
    and l: "sitemap s = [''http://h -> http://h/a.pdf'' @ [CHR 0x0A], ''http://h -> https://x.org'' @ [CHR 0x0A],
                      ''http://h -> http://h/b'' @ [CHR 0x0A], ''http://h/b -> http://h'' @ [CHR 0x0A],
                      ''http://h/b -> http://h/c'' @ [CHR 0x0A]]"
    and r: "mainRun s = MainReturned"
    by (rule example_run_state)
  from sitemap_lines_are_edges [OF s] s l r show ?thesis by (intro exI [of _ s]) simp
qed

text \<open>
  Claim C5.  The claim: the output is exactly one line for each successfully fetched
  page and each of its children, none lost.  The code: a run need not reach the
  return of \<^verbatim>\<open>Run\<close>.  On the site of two pages, with the seed's \<open>+1\<close> still unsent when
  the counter returns to zero, the run ends in the appender's panic.  The seed page
  has been fetched successfully and has the child \<^verbatim>\<open>http://h/b\<close>; its result is
  still in the result queue, and nothing has been written: the line
  \<^verbatim>\<open>http://h -> http://h/b\<close> is lost.
\<close>

theorem panicked_run_loses_edge:
  "map_sum id (map_option (\<lambda>s. (panicked s, mainRun s, fetched s, sitemap s)))
     (Run create_ok one_link_web (late_credit_schedule @ [Sender 0, Appender, Appender]) example_crawler)
   = Inr (Some (True, MainWait, [example_page], []))
   \<and> scrape one_link_web example_page = Inr [child_b]
   \<and> sitemap_line \<lparr>SourceSite = example_page, ChildrenSites = [child_b]\<rparr> child_b
       = ''http://h -> http://h/b'' @ [CHR 0x0A]"
  by code_simp

section \<open>The termination counter and the seed's credit\<close>

text \<open>The checker adds each delta it receives and, when the sum is zero, closes the
  work queue as its next step; a closed work queue stays closed.\<close>

lemma checker_receives:
  "send_delta d s = Some t \<Longrightarrow>
     workQueueSize t = workQueueSize s + d
     \<and> checker t = (if workQueueSize t = 0 then CheckClose else CheckRecv)
     \<and> workQueueClosed t = workQueueClosed s"
  by (auto simp: send_delta_def split: if_splits)

lemma checker_closes:
  "\<not> panicked s \<Longrightarrow> checker s = CheckClose \<Longrightarrow> \<not> workQueueClosed s \<Longrightarrow>
     step web Checker s = Some (s\<lparr>workQueueClosed := True, checker := CheckRecv\<rparr>)"
  by (simp add: step_def checker_step_def)

lemma checker_second_close_panics:
  "\<not> panicked s \<Longrightarrow> checker s = CheckClose \<Longrightarrow> workQueueClosed s \<Longrightarrow>
     step web Checker s = Some (s\<lparr>panicked := True\<rparr>)"
  by (simp add: step_def checker_step_def)

lemma panicked_stops: "panicked s \<Longrightarrow> step web g s = None"
  by (simp add: step_def)

text \<open>The counter along every schedule: it is the number of sites in flight, less
  one while the seed's credit is outstanding.  So it is never below \<open>-1\<close>, and it is
  non-negative from the moment the seed's credit has been received.\<close>

lemma sum_list_update_nat:
  "i < length ws \<Longrightarrow> sum_list (map f (ws[i := w])) + f (ws ! i) = sum_list (map f ws) + (f w :: nat)"
proof (induction ws arbitrary: i)
  case Nil
  then show ?case by simp
next
  case (Cons a ws)
  show ?case
  proof (cases i)
    case 0
    then show ?thesis by simp
  next
    case (Suc j)
    with Cons.prems have "j < length ws" by simp
    from Cons.IH [OF this] Suc show ?thesis by simp
  qed
qed

lemma send_delta_counter:
  "send_delta d s = Some t \<Longrightarrow>
     workQueueSize t = workQueueSize s + d \<and> siteFilterQueue t = siteFilterQueue s
     \<and> appender t = appender s \<and> workQueue t = workQueue s \<and> workers t = workers s
     \<and> senders t = senders s \<and> seeder t = seeder s \<and> panicked t = panicked s"
  by (auto simp: send_delta_def split: if_splits)

lemma send_filter_counter:
  "send_filter x s = Some t \<Longrightarrow>
     workQueueSize t = workQueueSize s
     \<and> (panicked t \<or> siteFilterQueue t = siteFilterQueue s @ [x])
     \<and> appender t = appender s \<and> workQueue t = workQueue s \<and> workers t = workers s
     \<and> senders t = senders s \<and> seeder t = seeder s"
  by (auto simp: send_filter_def split: if_splits)

lemma seeder_counter: "counter_inv s \<Longrightarrow> \<not> panicked s \<Longrightarrow> seeder_step s = Some t \<Longrightarrow> counter_inv t"
  by (auto simp: seeder_step_def counter_inv_def in_flight_def split: seeder_pc.splits sum.splits
      dest!: send_delta_counter send_filter_counter)

lemma checker_counter: "counter_inv s \<Longrightarrow> \<not> panicked s \<Longrightarrow> checker_step s = Some t \<Longrightarrow> counter_inv t"
  by (auto simp: checker_step_def counter_inv_def in_flight_def split: checker_pc.splits if_splits)

lemma builder_counter: "counter_inv s \<Longrightarrow> \<not> panicked s \<Longrightarrow> builder_step s = Some t \<Longrightarrow> counter_inv t"
  by (auto simp: builder_step_def counter_inv_def in_flight_def split: builder_pc.splits if_splits list.splits)

lemma main_counter: "counter_inv s \<Longrightarrow> \<not> panicked s \<Longrightarrow> main_step s = Some t \<Longrightarrow> counter_inv t"
  by (auto simp: main_step_def counter_inv_def in_flight_def split: main_pc.splits if_splits)

lemma appender_counter: "counter_inv s \<Longrightarrow> \<not> panicked s \<Longrightarrow> appender_step s = Some t \<Longrightarrow> counter_inv t"
  by (auto simp: appender_step_def counter_inv_def in_flight_def
      split: appender_pc.splits if_splits list.splits prod.splits appender_send.splits
      dest!: send_delta_counter)

lemma sender_counter:
  assumes "counter_inv s" "\<not> panicked s" "sender_step j s = Some t"
  shows "counter_inv t"
proof -
  from assms(3) have j: "j < length (senders s)"
    by (auto simp: sender_step_def split: if_splits)
  from assms(3) j obtain x rest where xs: "senders s ! j = x # rest"
    by (auto simp: sender_step_def split: list.splits)
  from assms(3) j xs obtain u where u: "send_filter x s = Some u" and t: "t = u\<lparr>senders := (senders u)[j := rest]\<rparr>"
    by (auto simp: sender_step_def)
  from sum_list_update_nat [OF j, of length rest] xs
  have "sum_list (map length ((senders s)[j := rest])) + 1 = sum_list (map length (senders s))"
    by simp
  with assms(1,2) send_filter_counter [OF u] t show ?thesis
    by (auto simp: counter_inv_def in_flight_def)
qed

lemma worker_counter:
  assumes "counter_inv s" "\<not> panicked s" "worker_step web i s = Some t"
  shows "counter_inv t"
proof -
  from assms(3) have i: "i < length (workers s)"
    by (auto simp: worker_step_def split: if_splits)
  note upd = sum_list_update_nat [OF i, of worker_holds]
  show ?thesis
  proof (cases "workers s ! i")
    case WRecv
    with assms i upd [of WExit] upd [of "WScrape (hd (workQueue s))"] show ?thesis
      by (auto simp: worker_step_def counter_inv_def in_flight_def split: list.splits if_splits)
  next
    case (WScrape x)
    with assms i upd [of WRetire] upd [of "WCredit x (projr (scrape web x))"]
      upd [of "WResult x (projr (scrape web x))"]
    show ?thesis
      by (auto simp: worker_step_def counter_inv_def in_flight_def split: sum.splits if_splits)
  next
    case (WCredit x ch)
    with assms i upd [of "WResult x ch"] show ?thesis
      by (auto simp: worker_step_def counter_inv_def in_flight_def dest!: send_delta_counter)
  next
    case (WResult x ch)
    with assms i upd [of WRetire] show ?thesis
      by (auto simp: worker_step_def counter_inv_def in_flight_def split: if_splits)
  next
    case WRetire
    with assms i upd [of WRecv] show ?thesis
      by (auto simp: worker_step_def counter_inv_def in_flight_def dest!: send_delta_counter)
  next
    case WExit
    with assms i show ?thesis by (simp add: worker_step_def)
  qed
qed

lemma counter_inv_step:
  assumes "counter_inv s" "step web g s = Some t"
  shows "counter_inv t"
proof -
  from assms(2) have "\<not> panicked s" by (auto simp: step_def split: if_splits)
  with assms show ?thesis
    by (cases g)
       (auto simp: step_def
         intro: seeder_counter checker_counter appender_counter worker_counter sender_counter
           builder_counter main_counter)
qed

lemma counter_inv_init: "counter_inv (init c)"
  by (simp add: counter_inv_def in_flight_def init_def)

lemma counter_inv_exec: "exec web gs (init c) = Some s \<Longrightarrow> counter_inv s"
  by (rule exec_invariant [where P = counter_inv, OF counter_inv_step counter_inv_init])

lemma sum_list_zero_lengths: "sum_list (map length xss) = 0 \<Longrightarrow> j < length xss \<Longrightarrow> xss ! j = []"
  by (induction xss arbitrary: j) (auto simp: nth_Cons split: nat.splits)

lemma worker_holds_pos:
  "i < length ws \<Longrightarrow> 0 < worker_holds (ws ! i) \<Longrightarrow> 0 < sum_list (map worker_holds ws)"
  by (induction ws arbitrary: i) (auto simp: nth_Cons split: nat.splits)

lemma in_flight_frame:
  "in_flight (s\<lparr>builder := b\<rparr>) = in_flight s"
  "in_flight (s\<lparr>mainRun := m\<rparr>) = in_flight s"
  "in_flight (s\<lparr>resultQueue := q\<rparr>) = in_flight s"
  "in_flight (s\<lparr>sitemap := l\<rparr>) = in_flight s"
  "in_flight (s\<lparr>fetched := f\<rparr>) = in_flight s"
  "in_flight (s\<lparr>panicked := p\<rparr>) = in_flight s"
  "in_flight (s\<lparr>checker := c\<rparr>) = in_flight s"
  "in_flight (s\<lparr>seeder := sd\<rparr>) = in_flight s"
  "in_flight (s\<lparr>workQueueClosed := wc\<rparr>) = in_flight s"
  "in_flight (s\<lparr>siteFilterClosed := fc\<rparr>) = in_flight s"
  "in_flight (s\<lparr>resultClosed := rc\<rparr>) = in_flight s"
  "in_flight (s\<lparr>visitedSites := v\<rparr>) = in_flight s"
  "in_flight (s\<lparr>workQueueSize := n\<rparr>) = in_flight s"
  by (simp_all add: in_flight_def)

lemma all_exit_member: "list_all (\<lambda>w. w = WExit) ws \<Longrightarrow> ws \<noteq> [] \<Longrightarrow> WExit \<in> set ws"
  by (cases ws) auto

lemma seeded_after_move:
  assumes "seeded s"
    and "in_flight t = in_flight s" "workQueueSize t = workQueueSize s" "checker t = checker s"
    and "panicked t = panicked s" "seeder t = seeder s" "workQueueClosed t = workQueueClosed s"
    and "mainRun t = mainRun s" "siteFilterClosed t = siteFilterClosed s" "resultClosed t = resultClosed s"
    and "workers t \<noteq> []" "WExit \<in> set (workers t) \<longrightarrow> workQueueClosed s"
    and "mainRun s \<noteq> MainWait \<longrightarrow> workers t = workers s"
  shows "seeded t"
  using assms by (simp add: seeded_def)

lemma seeded_after_delta:
  assumes "seeded s" "0 < in_flight s"
    and "int (in_flight t) = int (in_flight s) + d"
    and "workQueueSize t = workQueueSize s + d"
    and "checker t = (if workQueueSize s + d = 0 then CheckClose else CheckRecv)"
    and "panicked t = panicked s" "seeder t = seeder s" "workQueueClosed t = workQueueClosed s"
    and "mainRun t = mainRun s" "siteFilterClosed t = siteFilterClosed s" "resultClosed t = resultClosed s"
    and "workers t \<noteq> []" "WExit \<in> set (workers t) \<longrightarrow> workQueueClosed s"
    and "mainRun s \<noteq> MainWait \<longrightarrow> workers t = workers s"
  shows "seeded t"
proof -
  from assms(1,2) have "\<not> workQueueClosed s" by (auto simp: seeded_def)
  with assms show ?thesis by (simp add: seeded_def)
qed

lemma seeded_checker: "seeded s \<Longrightarrow> checker_step s = Some t \<Longrightarrow> seeded t"
  apply (auto simp: checker_step_def split: checker_pc.splits if_splits)
  apply (simp_all add: seeded_def in_flight_frame)
  done

lemma seeded_seeder: "seeded s \<Longrightarrow> seeder_step s = Some t \<Longrightarrow> seeded t"
  by (simp add: seeder_step_def seeded_def)

lemma seeded_builder: "seeded s \<Longrightarrow> builder_step s = Some t \<Longrightarrow> seeded t"
  apply (auto simp: builder_step_def split: builder_pc.splits if_splits list.splits)
  apply (simp_all add: seeded_def in_flight_frame)
  done

lemma seeded_main: "seeded s \<Longrightarrow> main_step s = Some t \<Longrightarrow> seeded t"
  apply (auto simp: main_step_def split: main_pc.splits if_splits)
  apply (simp_all add: seeded_def in_flight_frame)
  done

lemma seeded_exit_closed: "seeded s \<Longrightarrow> WExit \<in> set (workers s) \<longrightarrow> workQueueClosed s"
  by (simp add: seeded_def)

lemma seeded_workers: "seeded s \<Longrightarrow> workers s \<noteq> []"
  by (simp add: seeded_def)

lemma seeded_appender:
  assumes "seeded s" "appender_step s = Some t"
  shows "seeded t"
proof (cases "appender s")
  case AppRecv
  show ?thesis
  proof (cases "siteFilterQueue s")
    case Nil
    with assms AppRecv show ?thesis
      by (intro seeded_after_move [OF assms(1)])
         (auto simp: appender_step_def in_flight_def seeded_exit_closed seeded_workers split: if_splits)
  next
    case (Cons x q)
    with assms AppRecv show ?thesis
      by (intro seeded_after_move [OF assms(1)])
         (auto simp: appender_step_def in_flight_def seeded_exit_closed seeded_workers
           split: prod.splits appender_send.splits)
  qed
next
  case AppRetire
  then have pos: "0 < in_flight s" by (simp add: in_flight_def)
  from assms(2) AppRetire show ?thesis
    by (intro seeded_after_delta [OF assms(1) pos, of _ "- 1"])
       (auto simp: appender_step_def send_delta_def in_flight_def seeded_exit_closed [OF assms(1)]
         seeded_workers [OF assms(1)] split: if_splits)
next
  case (AppForward x)
  then have pos: "0 < in_flight s" by (simp add: in_flight_def)
  with assms(1) have "\<not> workQueueClosed s" by (auto simp: seeded_def)
  with assms(2) AppForward show ?thesis
    by (intro seeded_after_move [OF assms(1)])
       (auto simp: appender_step_def in_flight_def seeded_exit_closed [OF assms(1)]
         seeded_workers [OF assms(1)] split: if_splits)
next
  case AppExit
  with assms show ?thesis by (simp add: appender_step_def)
qed

lemma seeded_quiet:
  assumes "seeded s" "siteFilterClosed s"
  shows "in_flight s = 0"
proof -
  from assms have "list_all (\<lambda>w. w = WExit) (workers s)" "workers s \<noteq> []"
    by (auto simp: seeded_def)
  then have "WExit \<in> set (workers s)"
    by (rule all_exit_member)
  with assms(1) show ?thesis by (simp add: seeded_def)
qed

lemma seeded_sender:
  assumes "seeded s" "sender_step j s = Some t"
  shows "seeded t"
proof -
  from assms(2) have j: "j < length (senders s)"
    by (auto simp: sender_step_def split: if_splits)
  from assms(2) j obtain x rest where xs: "senders s ! j = x # rest"
    by (auto simp: sender_step_def split: list.splits)
  have opn: "\<not> siteFilterClosed s"
  proof
    assume "siteFilterClosed s"
    from seeded_quiet [OF assms(1) this] have "sum_list (map length (senders s)) = 0"
      by (simp add: in_flight_def)
    from sum_list_zero_lengths [OF this j] xs show False by simp
  qed
  from sum_list_update_nat [OF j, of length rest] xs
  have len: "sum_list (map length ((senders s)[j := rest])) + 1 = sum_list (map length (senders s))"
    by simp
  from assms(2) j xs opn
  have t: "t = s\<lparr>siteFilterQueue := siteFilterQueue s @ [x], senders := (senders s)[j := rest]\<rparr>"
    by (auto simp: sender_step_def send_filter_def split: if_splits)
  from len have "in_flight t = in_flight s"
    unfolding t by (simp add: in_flight_def)
  then show ?thesis
    by (intro seeded_after_move [OF assms(1)])
       (simp_all add: t seeded_exit_closed [OF assms(1)] seeded_workers [OF assms(1)])
qed

lemma set_update_exit:
  "WExit \<in> set (ws[i := w]) \<Longrightarrow> w \<noteq> WExit \<Longrightarrow> WExit \<in> set ws"
  by (metis in_set_conv_nth length_list_update nth_list_update_eq nth_list_update_neq)

lemma seeded_worker:
  assumes "seeded s" "worker_step web i s = Some t"
  shows "seeded t"
proof -
  from assms(2) have i: "i < length (workers s)"
    by (auto simp: worker_step_def split: if_splits)
  from assms(2) i have alive: "workers s ! i \<noteq> WExit"
    by (auto simp: worker_step_def)
  with i have "\<not> list_all (\<lambda>w. w = WExit) (workers s)"
    by (auto simp: list_all_length)
  with assms(1) have wait: "mainRun s = MainWait" "\<not> resultClosed s"
    by (auto simp: seeded_def)
  note upd = sum_list_update_nat [OF i, of worker_holds]
  note ex = seeded_exit_closed [OF assms(1)]
  have ne: "workers s \<noteq> []"
    using i by auto
  have keep: "WExit \<in> set ((workers s)[i := w]) \<longrightarrow> workQueueClosed s" if "w \<noteq> WExit" for w
    using set_update_exit [of "workers s" i w] that ex by blast
  show ?thesis
  proof (cases "workers s ! i")
    case WRecv
    show ?thesis
    proof (cases "workQueue s")
      case Nil
      with assms(2) i WRecv have t: "t = s\<lparr>workers := (workers s)[i := WExit]\<rparr>" and c: "workQueueClosed s"
        by (auto simp: worker_step_def split: if_splits)
      from upd [of WExit] WRecv have "in_flight t = in_flight s"
        unfolding t by (simp add: in_flight_def)
      then show ?thesis
        by (intro seeded_after_move [OF assms(1)]) (simp_all add: t ne c wait)
    next
      case (Cons x q)
      with assms(2) i WRecv have t: "t = s\<lparr>workQueue := q, workers := (workers s)[i := WScrape x]\<rparr>"
        by (auto simp: worker_step_def)
      from upd [of "WScrape x"] WRecv Cons have "in_flight t = in_flight s"
        unfolding t by (simp add: in_flight_def)
      moreover have "WExit \<in> set ((workers s)[i := WScrape x]) \<longrightarrow> workQueueClosed s"
        by (rule keep) simp
      ultimately show ?thesis
        by (intro seeded_after_move [OF assms(1)]) (simp_all add: t ne wait)
    qed
  next
    case (WScrape x)
    from assms(2) i WScrape obtain w where
      t: "t = s\<lparr>fetched := fetched s @ [x], workers := (workers s)[i := w]\<rparr>"
      and w: "worker_holds w = 1" "w \<noteq> WExit"
      by (auto simp: worker_step_def split: sum.splits if_splits)
    from upd [of w] WScrape w have "in_flight t = in_flight s"
      unfolding t by (simp add: in_flight_def)
    moreover have "WExit \<in> set ((workers s)[i := w]) \<longrightarrow> workQueueClosed s"
      by (rule keep) (rule w)
    ultimately show ?thesis
      by (intro seeded_after_move [OF assms(1)]) (simp_all add: t ne wait)
  next
    case (WCredit x ch)
    from worker_holds_pos [OF i] WCredit have pos: "0 < in_flight s"
      by (simp add: in_flight_def)
    from assms(2) i WCredit have
      t: "t = s\<lparr>workQueueSize := workQueueSize s + int (length ch),
                  checker := (if workQueueSize s + int (length ch) = 0 then CheckClose else CheckRecv),
                  workers := (workers s)[i := WResult x ch]\<rparr>"
      by (auto simp: worker_step_def send_delta_def split: if_splits)
    from upd [of "WResult x ch"] WCredit have "int (in_flight t) = int (in_flight s) + int (length ch)"
      unfolding t by (simp add: in_flight_def)
    moreover have "WExit \<in> set ((workers s)[i := WResult x ch]) \<longrightarrow> workQueueClosed s"
      by (rule keep) simp
    ultimately show ?thesis
      by (intro seeded_after_delta [OF assms(1) pos, of _ "int (length ch)"])
         (simp_all add: t ne wait)
  next
    case (WResult x ch)
    from assms(2) i WResult wait have
      t: "t = s\<lparr>resultQueue := resultQueue s @ [\<lparr>SourceSite = x, ChildrenSites = ch\<rparr>],
                  senders := senders s @ [ch], workers := (workers s)[i := WRetire]\<rparr>"
      by (auto simp: worker_step_def split: if_splits)
    from upd [of WRetire] WResult have "in_flight t = in_flight s"
      unfolding t by (simp add: in_flight_def)
    moreover have "WExit \<in> set ((workers s)[i := WRetire]) \<longrightarrow> workQueueClosed s"
      by (rule keep) simp
    ultimately show ?thesis
      by (intro seeded_after_move [OF assms(1)]) (simp_all add: t ne wait)
  next
    case WRetire
    from worker_holds_pos [OF i] WRetire have pos: "0 < in_flight s"
      by (simp add: in_flight_def)
    from assms(2) i WRetire have
      t: "t = s\<lparr>workQueueSize := workQueueSize s + (- 1),
                  checker := (if workQueueSize s + (- 1) = 0 then CheckClose else CheckRecv),
                  workers := (workers s)[i := WRecv]\<rparr>"
      by (auto simp: worker_step_def send_delta_def split: if_splits)
    from upd [of WRecv] WRetire have "int (in_flight t) = int (in_flight s) + (- 1)"
      unfolding t by (simp add: in_flight_def)
    moreover have "WExit \<in> set ((workers s)[i := WRecv]) \<longrightarrow> workQueueClosed s"
      by (rule keep) simp
    ultimately show ?thesis
      by (intro seeded_after_delta [OF assms(1) pos, of _ "- 1"])
         (simp_all add: t ne wait)
  next
    case WExit
    with alive show ?thesis by simp
  qed
qed

lemma seeded_step:
  assumes "seeded s" "step web g s = Some t"
  shows "seeded t"
  using assms
  by (cases g)
     (auto simp: step_def split: if_splits
       intro: seeded_seeder seeded_checker seeded_appender seeded_worker seeded_sender
         seeded_builder seeded_main)

lemma seeded_exec: "seeded s \<Longrightarrow> exec web gs s = Some t \<Longrightarrow> seeded t"
  by (rule exec_invariant [where P = seeded, OF seeded_step])

lemma seeded_after_seeding:
  assumes "0 < NumWorkers c" "strToAbsoluteURL (SeedURL c) = Inr u"
  shows "\<exists>s. exec web [Seeder, Seeder] (init c) = Some s \<and> seeded s"
  using assms
  by (simp add: step_def seeder_step_def send_filter_def send_delta_def init_def seeded_def in_flight_def)

lemma exec_append: "exec web (gs @ hs) s = (case exec web gs s of None \<Rightarrow> None | Some t \<Rightarrow> exec web hs t)"
  by (induction gs arbitrary: s) (auto split: option.splits)

lemma counter_counts_in_flight:
  assumes "exec web gs (init c) = Some s" "\<not> panicked s"
  shows "workQueueSize s = int (in_flight s) - (if seeder s = SeedCredit then 1 else 0)"
    and "- 1 \<le> workQueueSize s"
    and "seeder s \<noteq> SeedCredit \<Longrightarrow> 0 \<le> workQueueSize s"
  using counter_inv_exec [OF assms(1)] assms(2) by (auto simp: counter_inv_def)

lemma seeded_runs_are_safe:
  assumes "0 < NumWorkers c" "strToAbsoluteURL (SeedURL c) = Inr u"
    and "exec web ([Seeder, Seeder] @ gs) (init c) = Some s"
  shows "\<not> panicked s" and "workQueueSize s = int (in_flight s)" and "0 \<le> workQueueSize s"
    and "workQueueClosed s \<Longrightarrow> workQueueSize s = 0"
    and "checker s = CheckClose \<Longrightarrow> workQueueSize s = 0 \<and> \<not> workQueueClosed s"
proof -
  from seeded_after_seeding [OF assms(1,2), of web] obtain s1 where
    s1: "exec web [Seeder, Seeder] (init c) = Some s1" and sd: "seeded s1"
    by blast
  from assms(3) s1 have "exec web gs s1 = Some s"
    unfolding exec_append by simp
  from seeded_exec [OF sd this] have s: "seeded s" .
  then show "\<not> panicked s" "workQueueSize s = int (in_flight s)" "0 \<le> workQueueSize s"
    by (simp_all add: seeded_def)
  from s show "workQueueClosed s \<Longrightarrow> workQueueSize s = 0"
    by (simp add: seeded_def)
  from s show "checker s = CheckClose \<Longrightarrow> workQueueSize s = 0 \<and> \<not> workQueueClosed s"
    by (simp add: seeded_def)
qed

text \<open>In such runs the appender never forwards on a closed work queue: a site about
  to be forwarded is in flight, and the work queue is closed only at zero.\<close>

lemma seeded_forward_open: "seeded s \<Longrightarrow> appender s = AppForward x \<Longrightarrow> \<not> workQueueClosed s"
  by (auto simp: seeded_def in_flight_def)

lemma seeded_runs_forward:
  assumes "0 < NumWorkers c" "strToAbsoluteURL (SeedURL c) = Inr u"
    and "exec web ([Seeder, Seeder] @ gs) (init c) = Some s" "appender s = AppForward x"
  shows "\<not> workQueueClosed s"
proof -
  from seeded_after_seeding [OF assms(1,2), of web] obtain s1 where
    s1: "exec web [Seeder, Seeder] (init c) = Some s1" and sd: "seeded s1"
    by blast
  from assms(3) s1 have "exec web gs s1 = Some s"
    unfolding exec_append by simp
  from seeded_exec [OF sd this] have "seeded s" .
  then show ?thesis using assms(4) by (rule seeded_forward_open)
qed

text \<open>
  Claim C1.  The claim: the in-flight counter is never negative, reaches zero once,
  and no delta is applied after the work queue has been closed.  The code: \<^verbatim>\<open>Run\<close>'s
  seeding goroutine submits the seed to the filter queue before it sends the seed's
  \<open>+1\<close>, while \<^verbatim>\<open>scrape\<close> sends the credit for children before they are submitted.
  With a media seed the appender's \<open>-1\<close> can be received before the seed's \<open>+1\<close>, and
  the counter is \<open>-1\<close>.  With a seed page of one link the worker's credit and
  retirement can both be received first: the counter returns to zero, the work
  queue is closed, and the seed's \<open>+1\<close> is applied afterwards.
\<close>

theorem seed_credit_race:
  "map_sum id (map_option (\<lambda>s. (workQueueSize s, seeder s, panicked s)))
     (Run create_ok web_down [Seeder, Appender, Appender] media_seed_crawler)
   = Inr (Some (- 1, SeedCredit, False))
   \<and> map_sum id (map_option (\<lambda>s. (workQueueSize s, workQueueClosed s, seeder s)))
       (Run create_ok one_link_web late_credit_schedule example_crawler)
     = Inr (Some (0, True, SeedCredit))
   \<and> map_sum id (map_option (\<lambda>s. (workQueueSize s, workQueueClosed s, seeder s)))
       (Run create_ok one_link_web (late_credit_schedule @ [Seeder]) example_crawler)
     = Inr (Some (1, True, SeedDone))"
  by code_simp

text \<open>Runs that seed first.  When the seeding goroutine has sent the seed and its
  credit before any other goroutine moves, the defect above cannot show: on a finite
  site such a run never panics, never blocks before \<^verbatim>\<open>Run\<close> has returned, and has a
  bounded number of steps.\<close>

lemma send_delta_live:
  "send_delta d s = Some t \<Longrightarrow>
     workQueueCapacity t = workQueueCapacity s \<and> appender t = appender s
     \<and> siteFilterClosed t = siteFilterClosed s \<and> builder t = builder s \<and> resultQueue t = resultQueue s
     \<and> mainRun t = mainRun s \<and> resultClosed t = resultClosed s \<and> workers t = workers s"
  by (auto simp: send_delta_def split: if_splits)

lemma send_filter_live:
  "send_filter x s = Some t \<Longrightarrow>
     workQueueCapacity t = workQueueCapacity s \<and> appender t = appender s
     \<and> siteFilterClosed t = siteFilterClosed s \<and> builder t = builder s \<and> resultQueue t = resultQueue s
     \<and> mainRun t = mainRun s \<and> resultClosed t = resultClosed s \<and> workers t = workers s"
  by (auto simp: send_filter_def split: if_splits)

lemma live_seeder: "live s \<Longrightarrow> seeder_step s = Some t \<Longrightarrow> live t"
  by (auto simp: seeder_step_def live_def split: seeder_pc.splits sum.splits
      dest!: send_delta_live send_filter_live)

lemma live_checker: "live s \<Longrightarrow> checker_step s = Some t \<Longrightarrow> live t"
  by (auto simp: checker_step_def live_def split: checker_pc.splits if_splits)

lemma live_appender: "live s \<Longrightarrow> appender_step s = Some t \<Longrightarrow> live t"
  by (auto simp: appender_step_def live_def
      split: appender_pc.splits if_splits list.splits prod.splits appender_send.splits
      dest!: send_delta_live)

lemma live_sender: "live s \<Longrightarrow> sender_step j s = Some t \<Longrightarrow> live t"
  by (auto simp: sender_step_def live_def split: if_splits list.splits dest!: send_filter_live)

lemma live_builder: "live s \<Longrightarrow> builder_step s = Some t \<Longrightarrow> live t"
  by (auto simp: builder_step_def live_def split: builder_pc.splits if_splits list.splits)

lemma live_main: "live s \<Longrightarrow> main_step s = Some t \<Longrightarrow> live t"
  by (auto simp: main_step_def live_def split: main_pc.splits if_splits)

lemma live_worker:
  assumes "live s" "seeded s" "worker_step web i s = Some t"
  shows "live t"
proof -
  from assms(3) have i: "i < length (workers s)"
    by (auto simp: worker_step_def split: if_splits)
  from assms(3) i have "workers s ! i \<noteq> WExit"
    by (auto simp: worker_step_def)
  with i have "\<not> list_all (\<lambda>w. w = WExit) (workers s)"
    by (auto simp: list_all_length)
  with assms(2) have wait: "mainRun s = MainWait" "\<not> resultClosed s"
    by (auto simp: seeded_def)
  with assms(1) have b: "builder s = BuildRecv"
    by (auto simp: live_def)
  from assms(3) i have
    "workQueueCapacity t = workQueueCapacity s \<and> appender t = appender s
     \<and> siteFilterClosed t = siteFilterClosed s \<and> builder t = builder s
     \<and> mainRun t = mainRun s \<and> resultClosed t = resultClosed s"
    by (auto simp: worker_step_def split: worker_pc.splits list.splits if_splits sum.splits
        dest!: send_delta_live)
  with assms(1) wait b show ?thesis by (simp add: live_def)
qed

lemma live_step:
  assumes "live s" "seeded s" "step web g s = Some t"
  shows "live t"
  using assms
  by (cases g)
     (auto simp: step_def split: if_splits
       intro: live_seeder live_checker live_appender live_worker live_sender live_builder live_main)

lemma step_counter_kinds:
  assumes "step web g s = Some t"
  shows "panicked t
    \<or> (workQueueSize t = workQueueSize s \<and> checker t = checker s \<and> workQueueClosed t = workQueueClosed s)
    \<or> (checker t = (if workQueueSize t = 0 then CheckClose else CheckRecv))
    \<or> workQueueClosed t"
proof (cases g)
  case (Worker i)
  with assms have w: "worker_step web i s = Some t" by (auto simp: step_def split: if_splits)
  then have i: "i < length (workers s)" by (auto simp: worker_step_def split: if_splits)
  from w i show ?thesis
    by (cases "workers s ! i")
       (auto simp: worker_step_def send_delta_def split: list.splits if_splits sum.splits)
next
  case Seeder
  with assms show ?thesis
    by (auto simp: step_def seeder_step_def send_delta_def send_filter_def
        split: if_splits seeder_pc.splits sum.splits)
next
  case Checker
  with assms show ?thesis
    by (auto simp: step_def checker_step_def split: if_splits checker_pc.splits)
next
  case Appender
  with assms show ?thesis
    by (auto simp: step_def appender_step_def send_delta_def
        split: if_splits appender_pc.splits list.splits prod.splits appender_send.splits)
next
  case (Sender j)
  with assms show ?thesis
    by (auto simp: step_def sender_step_def send_filter_def split: if_splits list.splits)
next
  case Builder
  with assms show ?thesis
    by (auto simp: step_def builder_step_def split: if_splits builder_pc.splits list.splits)
next
  case MainRun
  with assms show ?thesis
    by (auto simp: step_def main_step_def split: if_splits main_pc.splits)
qed

lemma zero_closed_step:
  assumes "zero_closed s" "seeded s" "step web g s = Some t"
  shows "zero_closed t"
proof -
  from seeded_step [OF assms(2,3)] have t: "seeded t" .
  from assms(2) t have eq: "workQueueSize s = int (in_flight s)" "workQueueSize t = int (in_flight t)"
    "\<not> panicked t"
    by (simp_all add: seeded_def)
  from step_counter_kinds [OF assms(3)] eq assms(1) show ?thesis
    by (auto simp: zero_closed_def)
qed

lemma checker_enabled:
  "\<not> panicked s \<Longrightarrow> checker s = CheckClose \<Longrightarrow> \<exists>t. step web Checker s = Some t"
  by (simp add: step_def checker_step_def)

lemma builder_enabled:
  "\<not> panicked s \<Longrightarrow>
     (builder s = BuildRecv \<and> (resultQueue s \<noteq> [] \<or> resultClosed s))
      \<or> (builder s = BuildSignal \<and> mainRun s = MainRecvDone) \<Longrightarrow>
     \<exists>t. step web Builder s = Some t"
  by (auto simp: step_def builder_step_def split: list.splits)

lemma main_enabled:
  "\<not> panicked s \<Longrightarrow>
     (mainRun s = MainWait \<and> list_all (\<lambda>w. w = WExit) (workers s))
      \<or> mainRun s = MainCloseFilter \<or> mainRun s = MainCloseResult \<Longrightarrow>
     \<exists>t. step web MainRun s = Some t"
  by (auto simp: step_def main_step_def)

lemma worker_enabled:
  assumes "\<not> panicked s" "i < length (workers s)" "checker s = CheckRecv"
    and "workers s ! i \<noteq> WExit"
    and "workers s ! i = WRecv \<longrightarrow> workQueue s \<noteq> [] \<or> workQueueClosed s"
    and "workers s ! i = WRecv \<or> resultClosed s \<or> length (resultQueue s) < workQueueCapacity s"
  shows "\<exists>t. step web (Worker i) s = Some t"
  using assms
  by (cases "workers s ! i")
     (auto simp: step_def worker_step_def send_delta_def split: list.splits sum.splits)

lemma appender_enabled:
  assumes "\<not> panicked s" "checker s = CheckRecv" "appender s \<noteq> AppExit"
    and "appender s = AppRecv \<longrightarrow> siteFilterQueue s \<noteq> [] \<or> siteFilterClosed s"
    and "workQueueClosed s \<or> length (workQueue s) < workQueueCapacity s"
  shows "\<exists>t. step web Appender s = Some t"
  using assms
  by (cases "appender s")
     (auto simp: step_def appender_step_def send_delta_def
       split: list.splits prod.splits appender_send.splits)

lemma sender_enabled:
  assumes "\<not> panicked s" "j < length (senders s)" "senders s ! j \<noteq> []"
    and "siteFilterClosed s \<or> length (siteFilterQueue s) < workQueueCapacity s"
  shows "\<exists>t. step web (Sender j) s = Some t"
  using assms
  by (auto simp: step_def sender_step_def send_filter_def split: list.splits)

lemma sum_list_pos_nonempty:
  "0 < sum_list (map length xss) \<Longrightarrow> \<exists>j < length xss. xss ! j \<noteq> []"
proof (induction xss)
  case Nil
  then show ?case by simp
next
  case (Cons xs xss)
  show ?case
  proof (cases xs)
    case Nil
    with Cons obtain j where "j < length xss" "xss ! j \<noteq> []" by auto
    then have "Suc j < length (xs # xss)" "(xs # xss) ! Suc j \<noteq> []" by simp_all
    then show ?thesis by blast
  next
    case (Cons a as)
    then have "0 < length (xs # xss)" "(xs # xss) ! 0 \<noteq> []" by simp_all
    then show ?thesis by blast
  qed
qed

lemma worker_holds_zero: "worker_holds w = 0 \<longleftrightarrow> w = WRecv \<or> w = WExit"
  by (cases w) simp_all

lemma sum_holds_zero:
  "sum_list (map worker_holds ws) = 0 \<Longrightarrow> i < length ws \<Longrightarrow> ws ! i = WRecv \<or> ws ! i = WExit"
  by (simp add: worker_holds_zero [symmetric])

lemma not_all_exit: "\<not> list_all (\<lambda>w. w = WExit) ws \<Longrightarrow> \<exists>i < length ws. ws ! i \<noteq> WExit"
  by (auto simp: list_all_length)

lemma seeded_progress:
  assumes sd: "seeded s" and lv: "live s" and zc: "zero_closed s"
    and nr: "mainRun s \<noteq> MainReturned"
  shows "\<exists>g t. step web g s = Some t"
proof -
  from sd have np: "\<not> panicked s" and wne: "workers s \<noteq> []" by (simp_all add: seeded_def)
  from lv have cap: "0 < workQueueCapacity s" by (simp add: live_def)
  show ?thesis
  proof (cases "checker s")
    case CheckClose
    from checker_enabled [OF np this] show ?thesis by blast
  next
    case CheckRecv
    show ?thesis
    proof (cases "in_flight s = 0")
      case True
      with zc CheckRecv have closed: "workQueueClosed s" by (simp add: zero_closed_def)
      from True have q: "workQueue s = []" and h: "sum_list (map worker_holds (workers s)) = 0"
        by (simp_all add: in_flight_def)
      show ?thesis
      proof (cases "list_all (\<lambda>w. w = WExit) (workers s)")
        case False
        from not_all_exit [OF this] obtain i where i: "i < length (workers s)" "workers s ! i \<noteq> WExit"
          by blast
        from sum_holds_zero [OF h i(1)] i(2) have "workers s ! i = WRecv" by simp
        with worker_enabled [OF np i(1) CheckRecv i(2), of web] closed show ?thesis by auto
      next
        case True
        show ?thesis
        proof (cases "mainRun s")
          case MainRecvDone
          with lv have rc: "resultClosed s" and b: "builder s \<noteq> BuildExit" by (auto simp: live_def)
          from builder_enabled [OF np, of web] MainRecvDone rc b show ?thesis
            by (cases "builder s") auto
        next
          case MainReturned
          with nr show ?thesis by simp
        qed (use main_enabled [OF np, of web] True in auto)
      qed
    next
      case False
      then have pos: "0 < in_flight s" by simp
      with sd have opn: "\<not> workQueueClosed s" "WExit \<notin> set (workers s)"
        by (auto simp: seeded_def)
      show ?thesis
      proof (cases "resultQueue s")
        case (Cons r q)
        with lv have "builder s = BuildRecv" by (auto simp: live_def)
        with builder_enabled [OF np, of web] Cons show ?thesis by auto
      next
        case Nil
        with cap have room: "length (resultQueue s) < workQueueCapacity s" by simp
        show ?thesis
        proof (cases "\<exists>i < length (workers s). workers s ! i \<noteq> WRecv")
          case True
          then obtain i where i: "i < length (workers s)" "workers s ! i \<noteq> WRecv" by blast
          with opn(2) have "workers s ! i \<noteq> WExit" by (metis nth_mem)
          from worker_enabled [OF np i(1) CheckRecv this, of web] i(2) room show ?thesis by auto
        next
          case False
          then have allrecv: "\<And>i. i < length (workers s) \<Longrightarrow> workers s ! i = WRecv" by blast
          show ?thesis
          proof (cases "workQueue s")
            case (Cons x q)
            from wne have i: "0 < length (workers s)" by simp
            from allrecv [OF i] have "workers s ! 0 \<noteq> WExit" by simp
            from worker_enabled [OF np i CheckRecv this, of web] Cons room show ?thesis by auto
          next
            case Nil
            with cap have wroom: "length (workQueue s) < workQueueCapacity s" by simp
            have notexit: "appender s \<noteq> AppExit"
            proof
              assume "appender s = AppExit"
              with lv have "siteFilterClosed s" by (simp add: live_def)
              from seeded_quiet [OF sd this] pos show False by simp
            qed
            show ?thesis
            proof (cases "appender s = AppRecv \<and> siteFilterQueue s = []")
              case False
              with appender_enabled [OF np CheckRecv notexit, of web] wroom show ?thesis by auto
            next
              case True
              have "\<forall>w \<in> set (workers s). worker_holds w = 0"
                using allrecv by (auto simp: in_set_conv_nth)
              then have "sum_list (map worker_holds (workers s)) = 0"
                by (simp add: sum_list_eq_0_iff)
              with True Nil pos have "0 < sum_list (map length (senders s))"
                by (simp add: in_flight_def)
              from sum_list_pos_nonempty [OF this] obtain j where
                j: "j < length (senders s)" "senders s ! j \<noteq> []" by blast
              from True cap have "length (siteFilterQueue s) < workQueueCapacity s" by simp
              with sender_enabled [OF np j, of web] show ?thesis by blast
            qed
          qed
        qed
      qed
    qed
  qed
qed

lemma list_all_update: "list_all P xs \<Longrightarrow> P y \<Longrightarrow> list_all P (xs[i := y])"
  by (induction xs arbitrary: i) (auto split: nat.splits)

lemma list_all_nth: "list_all P xs \<Longrightarrow> i < length xs \<Longrightarrow> P (xs ! i)"
  by (simp add: list_all_length)

lemma send_delta_known: "send_delta d s = Some t \<Longrightarrow> known S B t = known S B s"
  by (auto simp: send_delta_def known_def split: if_splits)

lemma known_seeder: "known S B s \<Longrightarrow> seeded s \<Longrightarrow> seeder_step s = Some t \<Longrightarrow> known S B t"
  by (simp add: seeder_step_def seeded_def)

lemma known_checker: "known S B s \<Longrightarrow> checker_step s = Some t \<Longrightarrow> known S B t"
  by (auto simp: checker_step_def known_def split: checker_pc.splits if_splits)

lemma known_builder: "known S B s \<Longrightarrow> builder_step s = Some t \<Longrightarrow> known S B t"
  by (auto simp: builder_step_def known_def split: builder_pc.splits if_splits list.splits)

lemma known_main: "known S B s \<Longrightarrow> main_step s = Some t \<Longrightarrow> known S B t"
  by (auto simp: main_step_def known_def split: main_pc.splits if_splits)

lemma known_appender: "known S B s \<Longrightarrow> appender_step s = Some t \<Longrightarrow> known S B t"
  apply (auto simp: appender_step_def appender_body_def Let_def send_delta_def
      split: appender_pc.splits if_splits list.splits)
  apply (simp_all add: known_def candidate_ok_def)
  done

lemma known_sender:
  assumes "known S B s" "sender_step j s = Some t"
  shows "known S B t"
proof -
  from assms(2) have j: "j < length (senders s)"
    by (auto simp: sender_step_def split: if_splits)
  from assms(2) j obtain x rest where xs: "senders s ! j = x # rest"
    by (auto simp: sender_step_def split: list.splits)
  from assms(1) have "list_all (list_all (candidate_ok S)) (senders s)" by (simp add: known_def)
  from list_all_nth [OF this j] xs have ok: "candidate_ok S x" "list_all (candidate_ok S) rest"
    by simp_all
  from assms(1) ok(2) have "list_all (list_all (candidate_ok S)) ((senders s)[j := rest])"
    by (simp add: known_def list_all_update)
  with assms ok(1) j xs show ?thesis
    by (auto simp: sender_step_def send_filter_def known_def split: if_splits)
qed

lemma known_worker:
  assumes "known S B s" "finite_site web S B" "worker_step web i s = Some t"
  shows "known S B t"
proof -
  from assms(3) have i: "i < length (workers s)"
    by (auto simp: worker_step_def split: if_splits)
  from assms(1) have ws: "list_all (worker_known S B) (workers s)" by (simp add: known_def)
  note wi = list_all_nth [OF ws i]
  have upd: "list_all (worker_known S B) ((workers s)[i := w])" if "worker_known S B w" for w
    using ws that by (rule list_all_update)
  show ?thesis
  proof (cases "workers s ! i")
    case WRecv
    with assms(1,3) i upd [of WExit] show ?thesis
      by (cases "workQueue s") (auto simp: worker_step_def known_def list_all_update split: if_splits)
  next
    case (WScrape x)
    with wi have x: "x \<in> S" by simp
    with assms(2) have "scrape web x = Inr sites \<Longrightarrow> worker_known S B (WCredit x sites) \<and> worker_known S B (WResult x sites)" for sites
      by (auto simp: finite_site_def)
    with assms(1,3) i WScrape show ?thesis
      by (auto simp: worker_step_def known_def list_all_update split: sum.splits if_splits)
  next
    case (WCredit x ch)
    with wi have "worker_known S B (WResult x ch)" by simp
    from upd [OF this] assms(1,3) i WCredit show ?thesis
      by (auto simp: worker_step_def send_delta_def known_def split: if_splits)
  next
    case (WResult x ch)
    with wi have "list_all (candidate_ok S) ch" by simp
    with upd [of WRetire] assms(1,3) i WResult show ?thesis
      by (auto simp: worker_step_def known_def split: if_splits)
  next
    case WRetire
    with upd [of WRecv] assms(1,3) i show ?thesis
      by (auto simp: worker_step_def send_delta_def known_def split: if_splits)
  next
    case WExit
    with assms(3) i show ?thesis by (simp add: worker_step_def)
  qed
qed

lemma known_step:
  assumes "known S B s" "seeded s" "finite_site web S B" "step web g s = Some t"
  shows "known S B t"
  using assms
  by (cases g)
     (auto simp: step_def split: if_splits
       intro: known_seeder known_checker known_appender known_worker known_sender
         known_builder known_main)

lemma unvisited_admit:
  assumes "finite S" "x \<in> S" "\<not> v (key_of x)"
  shows "card {k \<in> key_of ` S. \<not> (v(key_of x := True)) k} + 1 = card {k \<in> key_of ` S. \<not> v k}"
proof -
  let ?U = "{k \<in> key_of ` S. \<not> v k}"
  have eq: "{k \<in> key_of ` S. \<not> (v(key_of x := True)) k} = ?U - {key_of x}" by auto
  have mem: "key_of x \<in> ?U" using assms by auto
  have fin: "finite ?U" using assms(1) by simp
  from fin mem have pos: "0 < card ?U"
    by (metis card_gt_0_iff empty_iff)
  from mem have "card (?U - {key_of x}) = card ?U - 1"
    by (rule card_Diff_singleton)
  with pos have "card (?U - {key_of x}) + 1 = card ?U" by arith
  then show ?thesis unfolding eq .
qed

lemma unvisited_frame:
  "unvisited S (s\<lparr>siteFilterQueue := a1\<rparr>) = unvisited S s"
  "unvisited S (s\<lparr>workQueue := a2\<rparr>) = unvisited S s"
  "unvisited S (s\<lparr>resultQueue := a3\<rparr>) = unvisited S s"
  "unvisited S (s\<lparr>appender := a4\<rparr>) = unvisited S s"
  "unvisited S (s\<lparr>workers := a5\<rparr>) = unvisited S s"
  "unvisited S (s\<lparr>senders := a6\<rparr>) = unvisited S s"
  "unvisited S (s\<lparr>builder := a7\<rparr>) = unvisited S s"
  "unvisited S (s\<lparr>mainRun := a8\<rparr>) = unvisited S s"
  "unvisited S (s\<lparr>checker := a9\<rparr>) = unvisited S s"
  "unvisited S (s\<lparr>workQueueSize := b1\<rparr>) = unvisited S s"
  "unvisited S (s\<lparr>workQueueClosed := b2\<rparr>) = unvisited S s"
  "unvisited S (s\<lparr>siteFilterClosed := b3\<rparr>) = unvisited S s"
  "unvisited S (s\<lparr>resultClosed := b4\<rparr>) = unvisited S s"
  "unvisited S (s\<lparr>sitemap := b5\<rparr>) = unvisited S s"
  "unvisited S (s\<lparr>fetched := b6\<rparr>) = unvisited S s"
  "unvisited S (s\<lparr>panicked := b7\<rparr>) = unvisited S s"
  "unvisited S (s\<lparr>seeder := b8\<rparr>) = unvisited S s"
  by (simp_all add: unvisited_def)

lemma potential_checker:
  "seeded s \<Longrightarrow> checker_step s = Some t \<Longrightarrow> potential S B t < potential S B s"
  apply (auto simp: checker_step_def split: checker_pc.splits if_splits)
  apply (simp_all add: potential_def work_left_def unvisited_frame seeded_def)
  done

lemma potential_seeder:
  "seeded s \<Longrightarrow> seeder_step s = Some t \<Longrightarrow> potential S B t < potential S B s"
  by (simp add: seeder_step_def seeded_def)

lemma potential_builder:
  "seeded s \<Longrightarrow> builder_step s = Some t \<Longrightarrow> potential S B t < potential S B s"
  apply (auto simp: builder_step_def split: builder_pc.splits if_splits list.splits)
  apply (simp_all add: potential_def work_left_def unvisited_frame)
  done

lemma potential_main:
  "seeded s \<Longrightarrow> main_step s = Some t \<Longrightarrow> potential S B t < potential S B s"
  apply (auto simp: main_step_def split: main_pc.splits if_splits)
  apply (simp_all add: potential_def work_left_def unvisited_frame seeded_def)
  done

lemma potential_appender:
  assumes sd: "seeded s" and kn: "known S B s" and fin: "finite S"
    and st: "appender_step s = Some t"
  shows "potential S B t < potential S B s"
proof (cases "appender s")
  case AppRecv
  show ?thesis
  proof (cases "siteFilterQueue s")
    case Nil
    with st AppRecv show ?thesis
      by (auto simp: appender_step_def potential_def work_left_def unvisited_frame split: if_splits)
  next
    case (Cons x q)
    show ?thesis
    proof (cases "snd (appender_body (visitedSites s) x)")
      case (SendDelta d)
      then have v: "fst (appender_body (visitedSites s) x) = visitedSites s"
        by (auto simp: appender_body_def Let_def split: if_splits)
      from st AppRecv Cons SendDelta v
      have t: "t = s\<lparr>siteFilterQueue := q, visitedSites := visitedSites s, appender := AppRetire\<rparr>"
        by (auto simp: appender_step_def split: prod.splits)
      show ?thesis
        unfolding t using AppRecv Cons by (simp add: potential_def work_left_def unvisited_def)
    next
      case (SendWork y)
      then have y: "y = x" and cls: "\<not> isExternalURL x" "\<not> isMediaURL (URL x)"
        and nv: "\<not> visitedSites s (key_of x)"
        and v: "fst (appender_body (visitedSites s) x) = (visitedSites s)(key_of x := True)"
        by (auto simp: appender_body_def Let_def key_of_def split: if_splits)
      from kn Cons cls have xS: "x \<in> S"
        by (simp add: known_def candidate_ok_def)
      from st AppRecv Cons SendWork v y
      have t: "t = s\<lparr>siteFilterQueue := q, visitedSites := (visitedSites s)(key_of x := True),
                       appender := AppForward x\<rparr>"
        by (auto simp: appender_step_def split: prod.splits)
      from unvisited_admit [of S x "visitedSites s", OF fin xS nv]
      have u: "unvisited S t + 1 = unvisited S s"
        unfolding t by (simp add: unvisited_def)
      have w: "work_left B t + 4 = work_left B s + (admit_cost B + 2)"
        unfolding t using AppRecv Cons by (simp add: work_left_def)
      from u have "(admit_cost B + 2) * unvisited S s = (admit_cost B + 2) * unvisited S t + (admit_cost B + 2)"
        by (metis add.commute mult_Suc_right Suc_eq_plus1)
      with w show ?thesis by (simp add: potential_def)
    qed
  qed
next
  case AppRetire
  with st have
    t: "t = s\<lparr>workQueueSize := workQueueSize s + (- 1),
                checker := (if workQueueSize s + (- 1) = 0 then CheckClose else CheckRecv),
                appender := AppRecv\<rparr>" and c: "checker s = CheckRecv"
    by (auto simp: appender_step_def send_delta_def split: if_splits)
  show ?thesis
    unfolding t using AppRetire c by (simp add: potential_def work_left_def unvisited_frame)
next
  case (AppForward x)
  then have "0 < in_flight s" by (simp add: in_flight_def)
  with sd have "\<not> workQueueClosed s" by (auto simp: seeded_def)
  with st AppForward have t: "t = s\<lparr>workQueue := workQueue s @ [x], appender := AppRecv\<rparr>"
    by (auto simp: appender_step_def split: if_splits)
  show ?thesis
    unfolding t using AppForward by (simp add: potential_def work_left_def unvisited_frame)
next
  case AppExit
  with st show ?thesis by (simp add: appender_step_def)
qed

lemma potential_sender:
  assumes sd: "seeded s" and st: "sender_step j s = Some t"
  shows "potential S B t < potential S B s"
proof -
  from st have j: "j < length (senders s)"
    by (auto simp: sender_step_def split: if_splits)
  from st j obtain x rest where xs: "senders s ! j = x # rest"
    by (auto simp: sender_step_def split: list.splits)
  have opn: "\<not> siteFilterClosed s"
  proof
    assume "siteFilterClosed s"
    from seeded_quiet [OF sd this] have "sum_list (map length (senders s)) = 0"
      by (simp add: in_flight_def)
    from sum_list_zero_lengths [OF this j] xs show False by simp
  qed
  from sum_list_update_nat [OF j, of length rest] xs
  have len: "sum_list (map length ((senders s)[j := rest])) + 1 = sum_list (map length (senders s))"
    by simp
  from st j xs opn
  have t: "t = s\<lparr>siteFilterQueue := siteFilterQueue s @ [x], senders := (senders s)[j := rest]\<rparr>"
    by (auto simp: sender_step_def send_filter_def split: if_splits)
  from len show ?thesis
    unfolding t by (simp add: potential_def work_left_def unvisited_frame)
qed

lemma potential_worker:
  assumes sd: "seeded s" and kn: "known S B s" and fs: "finite_site web S B"
    and st: "worker_step web i s = Some t"
  shows "potential S B t < potential S B s"
proof -
  from st have i: "i < length (workers s)"
    by (auto simp: worker_step_def split: if_splits)
  from st i have alive: "workers s ! i \<noteq> WExit"
    by (auto simp: worker_step_def)
  with i have "\<not> list_all (\<lambda>w. w = WExit) (workers s)"
    by (auto simp: list_all_length)
  with sd have wait: "\<not> resultClosed s"
    by (auto simp: seeded_def)
  from kn have "list_all (worker_known S B) (workers s)" by (simp add: known_def)
  note wi = list_all_nth [OF this i]
  note upd = sum_list_update_nat [OF i, of "worker_weight B"]
  show ?thesis
  proof (cases "workers s ! i")
    case WRecv
    show ?thesis
    proof (cases "workQueue s")
      case Nil
      with st i WRecv have t: "t = s\<lparr>workers := (workers s)[i := WExit]\<rparr>"
        by (auto simp: worker_step_def split: if_splits)
      from upd [of WExit] WRecv show ?thesis
        unfolding t by (simp add: potential_def work_left_def unvisited_frame)
    next
      case (Cons x q)
      with st i WRecv have t: "t = s\<lparr>workQueue := q, workers := (workers s)[i := WScrape x]\<rparr>"
        by (auto simp: worker_step_def)
      from upd [of "WScrape x"] WRecv Cons show ?thesis
        unfolding t by (simp add: potential_def work_left_def unvisited_frame)
    qed
  next
    case (WScrape x)
    with wi have x: "x \<in> S" by simp
    from st i WScrape obtain w where
      t: "t = s\<lparr>fetched := fetched s @ [x], workers := (workers s)[i := w]\<rparr>"
      and w: "w = WRetire \<or> (\<exists>sites. scrape web x = Inr sites \<and> (w = WCredit x sites \<or> w = WResult x sites))"
      by (auto simp: worker_step_def split: sum.splits if_splits)
    from w x fs have "worker_weight B w < admit_cost B"
      by (auto simp: finite_site_def admit_cost_def)
    with upd [of w] WScrape show ?thesis
      unfolding t by (simp add: potential_def work_left_def unvisited_frame)
  next
    case (WCredit x ch)
    from st i WCredit have
      t: "t = s\<lparr>workQueueSize := workQueueSize s + int (length ch),
                  checker := (if workQueueSize s + int (length ch) = 0 then CheckClose else CheckRecv),
                  workers := (workers s)[i := WResult x ch]\<rparr>" and c: "checker s = CheckRecv"
      by (auto simp: worker_step_def send_delta_def split: if_splits)
    from upd [of "WResult x ch"] WCredit c show ?thesis
      unfolding t by (simp add: potential_def work_left_def unvisited_frame)
  next
    case (WResult x ch)
    from st i WResult wait have
      t: "t = s\<lparr>resultQueue := resultQueue s @ [\<lparr>SourceSite = x, ChildrenSites = ch\<rparr>],
                  senders := senders s @ [ch], workers := (workers s)[i := WRetire]\<rparr>"
      by (auto simp: worker_step_def split: if_splits)
    from upd [of WRetire] WResult show ?thesis
      unfolding t by (simp add: potential_def work_left_def unvisited_frame)
  next
    case WRetire
    from st i WRetire have
      t: "t = s\<lparr>workQueueSize := workQueueSize s + (- 1),
                  checker := (if workQueueSize s + (- 1) = 0 then CheckClose else CheckRecv),
                  workers := (workers s)[i := WRecv]\<rparr>" and c: "checker s = CheckRecv"
      by (auto simp: worker_step_def send_delta_def split: if_splits)
    from upd [of WRecv] WRetire c show ?thesis
      unfolding t by (simp add: potential_def work_left_def unvisited_frame)
  next
    case WExit
    with alive show ?thesis by simp
  qed
qed

lemma potential_step:
  assumes "seeded s" "known S B s" "finite_site web S B" "step web g s = Some t"
  shows "potential S B t < potential S B s"
proof -
  from assms(3) have fin: "finite S" by (simp add: finite_site_def)
  from assms(4) show ?thesis
    by (cases g)
       (auto simp: step_def split: if_splits
         intro: potential_seeder potential_checker potential_appender potential_worker
           potential_sender potential_builder potential_main assms(1,2,3) fin)
qed

lemma ready_step:
  assumes "ready web S B s" "step web g s = Some t"
  shows "ready web S B t"
  using assms seeded_step [of s web g t] live_step [of s web g t] zero_closed_step [of s web g t]
    known_step [of S B s web g t]
  by (auto simp: ready_def)

lemma ready_exec_bound:
  "ready web S B s \<Longrightarrow> exec web gs s = Some t \<Longrightarrow>
     ready web S B t \<and> length gs + potential S B t \<le> potential S B s"
proof (induction gs arbitrary: s)
  case Nil
  then show ?case by simp
next
  case (Cons g gs)
  from Cons.prems(2) obtain u where u: "step web g s = Some u" and r: "exec web gs u = Some t"
    by (auto split: option.splits)
  from ready_step [OF Cons.prems(1) u] have ru: "ready web S B u" .
  from Cons.prems(1) have "seeded s" "known S B s" "finite_site web S B"
    by (simp_all add: ready_def)
  from potential_step [OF this u] have "potential S B u < potential S B s" .
  with Cons.IH [OF ru r] show ?case by simp
qed

lemma ready_after_seeding:
  assumes "0 < NumWorkers c" "strToAbsoluteURL (SeedURL c) = Inr u"
    and "finite_site web S B" "\<lparr>URL = u, Parent = None\<rparr> \<in> S"
  shows "\<exists>s. exec web [Seeder, Seeder] (init c) = Some s \<and> ready web S B s"
proof -
  let ?s = "(init c)\<lparr>siteFilterQueue := [\<lparr>URL = u, Parent = None\<rparr>], workQueueSize := 1, seeder := SeedDone\<rparr>"
  from assms(1,2) have e: "exec web [Seeder, Seeder] (init c) = Some ?s"
    by (simp add: step_def seeder_step_def send_filter_def send_delta_def init_def)
  from assms(1) have "seeded ?s"
    by (simp add: seeded_def in_flight_def init_def)
  moreover from assms(1) have "live ?s"
    by (simp add: live_def init_def)
  moreover have "zero_closed ?s"
    by (simp add: zero_closed_def in_flight_def init_def)
  moreover from assms(4) have "known S B ?s"
    by (simp add: known_def candidate_ok_def init_def list_all_iff)
  ultimately show ?thesis using e assms(3) by (auto simp: ready_def)
qed

lemma closed_site_bound:
  assumes "closed_site web S"
  shows "\<exists>B. finite_site web S B"
proof -
  let ?f = "\<lambda>x. case scrape web x of Inl err \<Rightarrow> 0 | Inr sites \<Rightarrow> length sites"
  from assms have fin: "finite S" by (simp add: closed_site_def)
  have "length sites \<le> Max (insert 0 (?f ` S))" if "x \<in> S" "scrape web x = Inr sites" for x sites
  proof -
    from that have "length sites \<in> insert 0 (?f ` S)" by force
    with fin show ?thesis by (intro Max_ge) auto
  qed
  with assms have "finite_site web S (Max (insert 0 (?f ` S)))"
    by (auto simp: finite_site_def closed_site_def)
  then show ?thesis ..
qed

lemma ready_can_return:
  "ready web S B s \<Longrightarrow> \<exists>gs t. exec web gs s = Some t \<and> mainRun t = MainReturned"
proof (induction "potential S B s" arbitrary: s rule: less_induct)
  case less
  show ?case
  proof (cases "mainRun s = MainReturned")
    case True
    then have "exec web [] s = Some s \<and> mainRun s = MainReturned" by simp
    then show ?thesis by blast
  next
    case False
    from less.prems have "seeded s" "live s" "zero_closed s" "known S B s" "finite_site web S B"
      by (simp_all add: ready_def)
    from seeded_progress [OF this(1,2,3) False, of web] obtain g u where u: "step web g s = Some u"
      by blast
    from potential_step [OF \<open>seeded s\<close> \<open>known S B s\<close> \<open>finite_site web S B\<close> u]
    have "potential S B u < potential S B s" .
    from less.hyps [OF this ready_step [OF less.prems u]] obtain gs t where
      "exec web gs u = Some t" "mainRun t = MainReturned" by blast
    with u have "exec web (g # gs) s = Some t \<and> mainRun t = MainReturned" by simp
    then show ?thesis by blast
  qed
qed

lemma seeded_runs_return:
  assumes "0 < NumWorkers c" "strToAbsoluteURL (SeedURL c) = Inr u"
    and "closed_site web S" "\<lparr>URL = u, Parent = None\<rparr> \<in> S"
  shows "\<exists>N. \<forall>gs s. exec web ([Seeder, Seeder] @ gs) (init c) = Some s \<longrightarrow>
           \<not> panicked s \<and> length gs \<le> N
           \<and> (mainRun s = MainReturned \<or> (\<exists>g t. step web g s = Some t))"
    and "\<exists>gs s. exec web ([Seeder, Seeder] @ gs) (init c) = Some s \<and> mainRun s = MainReturned"
proof -
  from closed_site_bound [OF assms(3)] obtain B where fs: "finite_site web S B" ..
  from ready_after_seeding [OF assms(1,2) fs assms(4)] obtain s1 where
    s1: "exec web [Seeder, Seeder] (init c) = Some s1" and r1: "ready web S B s1"
    by blast
  have "\<not> panicked s \<and> length gs \<le> potential S B s1
        \<and> (mainRun s = MainReturned \<or> (\<exists>g t. step web g s = Some t))"
    if "exec web ([Seeder, Seeder] @ gs) (init c) = Some s" for gs s
  proof -
    from that s1 have e: "exec web gs s1 = Some s"
      unfolding exec_append by simp
    from ready_exec_bound [OF r1 e] have r: "ready web S B s"
      and b: "length gs \<le> potential S B s1" by simp_all
    from r have "seeded s" "live s" "zero_closed s" by (simp_all add: ready_def)
    from seeded_progress [OF this, of web] this(1) b show ?thesis
      by (auto simp: seeded_def)
  qed
  then show "\<exists>N. \<forall>gs s. exec web ([Seeder, Seeder] @ gs) (init c) = Some s \<longrightarrow>
           \<not> panicked s \<and> length gs \<le> N
           \<and> (mainRun s = MainReturned \<or> (\<exists>g t. step web g s = Some t))"
    by blast
  from ready_can_return [OF r1] obtain gs t where "exec web gs s1 = Some t" "mainRun t = MainReturned"
    by blast
  with s1 have "exec web ([Seeder, Seeder] @ gs) (init c) = Some t \<and> mainRun t = MainReturned"
    unfolding exec_append by simp
  then show "\<exists>gs s. exec web ([Seeder, Seeder] @ gs) (init c) = Some s \<and> mainRun s = MainReturned"
    by blast
qed

text \<open>
  Claim C2.  The claim: for a valid configuration and a finite site, \<^verbatim>\<open>Run\<close> returns.
  The code: on a site of two pages, with the seed's \<open>+1\<close> still unsent when the
  counter returns to zero, the work queue is closed while the seed page's child is
  on its way; the appender's send of that child on the closed work queue panics,
  and \<^verbatim>\<open>Run\<close> is still in \<^verbatim>\<open>wg.Wait\<close>.
\<close>

theorem late_seed_credit_panics:
  "map_sum id (map_option (\<lambda>s. (panicked s, mainRun s, workers s)))
     (Run create_ok one_link_web (late_credit_schedule @ [Sender 0, Appender, Appender]) example_crawler)
   = Inr (Some (True, MainWait, [WRecv]))"
  by code_simp

end
